theory Spec2Isabelle
  imports Main
begin

section \<open>JavaScript values\<close>

text \<open>
  The annotation objects handed over by the PDF parser are untyped (\<open>any\<close>): every field
  may be missing or hold a value of any shape. They are modelled as JSON-like values.
  Strings are sequences of 8-bit code units; numbers are the integer-valued ones (printed
  in plain decimal notation, as JavaScript does below \<open>10^21\<close>).
  An object is an association list (insertion order of its keys), looked up by first match.
\<close>

datatype jsval =
    JUndefined
  | JNull
  | JBool bool
  | JNum int
  | JStr string
  | JArr "jsval list"
  | JObj "(string \<times> jsval) list"

abbreviation DQ :: char where "DQ \<equiv> CHR 0x22"
abbreviation BSL :: char where "BSL \<equiv> CHR 0x5C"
abbreviation LF :: char where "LF \<equiv> CHR 0x0A"
abbreviation CR :: char where "CR \<equiv> CHR 0x0D"
abbreviation TAB :: char where "TAB \<equiv> CHR 0x09"

text \<open>ToBoolean: what \<open>if (v)\<close>, \<open>!v\<close>, \<open>v || w\<close> and \<open>v && w\<close> test.\<close>

fun truthy :: "jsval \<Rightarrow> bool" where
  "truthy JUndefined = False"
| "truthy JNull = False"
| "truthy (JBool b) = b"
| "truthy (JNum n) = (n \<noteq> 0)"
| "truthy (JStr s) = (s \<noteq> [])"
| "truthy (JArr xs) = True"
| "truthy (JObj kvs) = True"

text \<open>\<open>v || w\<close>\<close>

definition js_or :: "jsval \<Rightarrow> jsval \<Rightarrow> jsval" where
  "js_or v w = (if truthy v then v else w)"

text \<open>\<open>typeof v === 'string'\<close>, \<open>typeof v === 'object'\<close> (which holds of \<open>null\<close> and of
  arrays too) and \<open>Array.isArray(v)\<close>.\<close>

fun is_string :: "jsval \<Rightarrow> bool" where
  "is_string (JStr s) = True"
| "is_string v = False"

fun typeof_object :: "jsval \<Rightarrow> bool" where
  "typeof_object JNull = True"
| "typeof_object (JArr xs) = True"
| "typeof_object (JObj kvs) = True"
| "typeof_object v = False"

fun isArray :: "jsval \<Rightarrow> bool" where
  "isArray (JArr xs) = True"
| "isArray v = False"

text \<open>
  Property read \<open>v.k\<close> for the keys the program reads (\<open>str\<close>, \<open>text\<close> and the
  annotation fields): an object yields the stored value or \<open>undefined\<close>; strings,
  numbers, booleans and arrays have no such property. The program reads a property only
  of a value it has tested to be truthy, so the read of \<open>null\<close> or \<open>undefined\<close>
  (a TypeError) never happens.
\<close>

fun js_prop :: "jsval \<Rightarrow> string \<Rightarrow> jsval" where
  "js_prop (JObj kvs) k = (case map_of kvs k of Some v \<Rightarrow> v | None \<Rightarrow> JUndefined)"
| "js_prop v k = JUndefined"

subsection \<open>Conversion to strings\<close>

definition digit_char :: "nat \<Rightarrow> char" where
  "digit_char n = char_of (48 + n)"

fun string_of_nat :: "nat \<Rightarrow> string" where
  "string_of_nat n =
     (if n < 10 then [digit_char n] else string_of_nat (n div 10) @ [digit_char (n mod 10)])"

declare string_of_nat.simps [simp del]

definition string_of_int :: "int \<Rightarrow> string" where
  "string_of_int i = (if i < 0 then CHR ''-'' # string_of_nat (nat (- i)) else string_of_nat (nat i))"

text \<open>
  ToString, as applied by \<open>RegExp.prototype.exec\<close>, by template literals and by
  \<open>Array.prototype.join\<close>, which renders \<open>undefined\<close> and \<open>null\<close> elements as
  empty strings. The \<open>toString()\<close> method of a non-nullish value gives the same string.
  A number is an integer written in plain decimal digits, as JavaScript writes the
  integers below \<open>10\<^sup>2\<^sup>1\<close> in magnitude; the exponent form of larger numbers is not
  modelled.
\<close>

fun js_toString :: "jsval \<Rightarrow> string"
  and js_join :: "string \<Rightarrow> jsval list \<Rightarrow> string" where
  "js_toString JUndefined = ''undefined''"
| "js_toString JNull = ''null''"
| "js_toString (JBool b) = (if b then ''true'' else ''false'')"
| "js_toString (JNum n) = string_of_int n"
| "js_toString (JStr s) = s"
| "js_toString (JArr xs) = js_join '','' xs"
| "js_toString (JObj kvs) = ''[object Object]''"
| "js_join sep [] = []"
| "js_join sep [x] = (if x = JUndefined \<or> x = JNull then [] else js_toString x)"
| "js_join sep (x # y # ys) =
     (if x = JUndefined \<or> x = JNull then [] else js_toString x) @ sep @ js_join sep (y # ys)"

text \<open>\<open>xs.join(sep)\<close> on an array of strings.\<close>

fun str_join :: "string \<Rightarrow> string list \<Rightarrow> string" where
  "str_join sep [] = []"
| "str_join sep [x] = x"
| "str_join sep (x # y # ys) = x @ sep @ str_join sep (y # ys)"

subsection \<open>JSON.stringify\<close>

definition hex_digit :: "nat \<Rightarrow> char" where
  "hex_digit n = (if n < 10 then char_of (48 + n) else char_of (87 + n))"

definition json_escape :: "char \<Rightarrow> string" where
  "json_escape c =
     (if c = DQ then [BSL, DQ]
      else if c = BSL then [BSL, BSL]
      else if c = CHR 0x08 then [BSL, CHR ''b'']
      else if c = CHR 0x0C then [BSL, CHR ''f'']
      else if c = LF then [BSL, CHR ''n'']
      else if c = CR then [BSL, CHR ''r'']
      else if c = TAB then [BSL, CHR ''t'']
      else if (of_char c :: nat) < 32
        then [BSL, CHR ''u'', CHR ''0'', CHR ''0'',
              hex_digit (of_char c div 16), hex_digit (of_char c mod 16)]
      else [c])"

definition json_quote :: "string \<Rightarrow> string" where
  "json_quote s = [DQ] @ concat (map json_escape s) @ [DQ]"

text \<open>
  The text of a value that is not \<open>undefined\<close>. Inside an array \<open>undefined\<close> is
  written \<open>null\<close>; a member of an object whose value is \<open>undefined\<close> is left out.
  The members are written in the order of the list, which holds the keys in the order the
  object enumerates them (keys that are array indices first, in ascending order).
\<close>

fun json_text :: "jsval \<Rightarrow> string"
  and json_elems :: "jsval list \<Rightarrow> string list"
  and json_members :: "(string \<times> jsval) list \<Rightarrow> string list" where
  "json_text JUndefined = ''null''"
| "json_text JNull = ''null''"
| "json_text (JBool b) = (if b then ''true'' else ''false'')"
| "json_text (JNum n) = string_of_int n"
| "json_text (JStr s) = json_quote s"
| "json_text (JArr xs) = ''['' @ str_join '','' (json_elems xs) @ '']''"
| "json_text (JObj kvs) = ''{'' @ str_join '','' (json_members kvs) @ ''}''"
| "json_elems [] = []"
| "json_elems (x # xs) = json_text x # json_elems xs"
| "json_members [] = []"
| "json_members ((k, v) # kvs) =
     (if v = JUndefined then json_members kvs
      else (json_quote k @ '':'' @ json_text v) # json_members kvs)"

text \<open>\<open>JSON.stringify(v)\<close>: \<open>undefined\<close> for \<open>undefined\<close>, a string otherwise.\<close>

definition JSON_stringify :: "jsval \<Rightarrow> jsval" where
  "JSON_stringify v = (if v = JUndefined then JUndefined else JStr (json_text v))"

subsection \<open>String.prototype.trim\<close>

text \<open>The white space and line terminators among the 8-bit code units:
  TAB, LF, VT, FF, CR, SP and NBSP.\<close>

definition is_ws :: "char \<Rightarrow> bool" where
  "is_ws c = ((of_char c :: nat) \<in> {9, 10, 11, 12, 13, 32, 160})"

definition trim :: "string \<Rightarrow> string" where
  "trim s = rev (dropWhile is_ws (rev (dropWhile is_ws s)))"

section \<open>Dates\<close>

text \<open>
  The time values of ECMAScript (milliseconds since 1970-01-01T00:00:00Z, \<open>None\<close> for NaN)
  and the abstract operations of its Date objects that \<open>Date.UTC\<close> and
  \<open>Date.prototype.toISOString\<close> are made of.
\<close>

datatype js_error = TypeError | RangeError

definition msPerDay :: int where
  "msPerDay = 86400000"

definition Day :: "int \<Rightarrow> int" where
  "Day t = t div msPerDay"

definition DaysInYear :: "int \<Rightarrow> int" where
  "DaysInYear y =
     (if y mod 4 \<noteq> 0 then 365
      else if y mod 100 \<noteq> 0 then 366
      else if y mod 400 \<noteq> 0 then 365
      else 366)"

definition DayFromYear :: "int \<Rightarrow> int" where
  "DayFromYear y =
     365 * (y - 1970) + (y - 1969) div 4 - (y - 1901) div 100 + (y - 1601) div 400"

text \<open>The largest year that starts on or before day \<open>d\<close>, searched downwards from a year
  that starts after it.\<close>

function year_down :: "int \<Rightarrow> int \<Rightarrow> int" where
  "year_down y d = (if DayFromYear y \<le> d then y else year_down (y - 1) d)"
  by pat_completeness auto
termination
proof (relation "measure (\<lambda>(y, d). nat (DayFromYear y - d))")
  show "wf (measure (\<lambda>(y, d). nat (DayFromYear y - d)))"
    by simp
next
  fix y d :: int
  assume a: "\<not> DayFromYear y \<le> d"
  have 1: "(y - 1 - 1969) div 4 \<le> (y - 1969) div 4"
    by (rule zdiv_mono1) simp_all
  have 2: "(y - 1901) div 100 \<le> (y - 1 - 1901 + 100) div 100"
    by (rule zdiv_mono1) simp_all
  have 3: "(y - 1 - 1901 + 100) div 100 = (y - 1 - 1901) div 100 + 1"
    by simp
  have 4: "(y - 1 - 1601) div 400 \<le> (y - 1601) div 400"
    by (rule zdiv_mono1) simp_all
  have 5: "(y - 1901) div 100 \<le> (y - 1 - 1901) div 100 + 1"
    using 2 unfolding 3 .
  have gen: "365 * (y - 1 - 1970) + a' - b' + c' < 365 * (y - 1970) + a - b + c"
    if "a' \<le> a" "b \<le> b' + 1" "c' \<le> c" for a a' b b' c c' :: int
    using that by simp
  have "DayFromYear (y - 1) < DayFromYear y"
    unfolding DayFromYear_def by (rule gen [OF 1 5 4])
  with a show "((y - 1, d), (y, d)) \<in> measure (\<lambda>(y, d). nat (DayFromYear y - d))"
    by simp
qed

declare year_down.simps [simp del]

definition YearFromDay :: "int \<Rightarrow> int" where
  "YearFromDay d = year_down (1970 + (if 0 \<le> d then d div 365 else d div 366)) d"

definition YearFromTime :: "int \<Rightarrow> int" where
  "YearFromTime t = YearFromDay (Day t)"

definition DayWithinYear :: "int \<Rightarrow> int" where
  "DayWithinYear t = Day t - DayFromYear (YearFromTime t)"

definition InLeapYear :: "int \<Rightarrow> int" where
  "InLeapYear t = (if DaysInYear (YearFromTime t) = 366 then 1 else 0)"

text \<open>Months are numbered from 0, days of the month from 1.\<close>

definition MonthFromTime :: "int \<Rightarrow> int" where
  "MonthFromTime t =
     (let d = DayWithinYear t; l = InLeapYear t in
      if d < 31 then 0
      else if d < 59 + l then 1
      else if d < 90 + l then 2
      else if d < 120 + l then 3
      else if d < 151 + l then 4
      else if d < 181 + l then 5
      else if d < 212 + l then 6
      else if d < 243 + l then 7
      else if d < 273 + l then 8
      else if d < 304 + l then 9
      else if d < 334 + l then 10
      else 11)"

definition DateFromTime :: "int \<Rightarrow> int" where
  "DateFromTime t =
     (let d = DayWithinYear t; l = InLeapYear t; m = MonthFromTime t in
      if m = 0 then d + 1
      else if m = 1 then d - 30
      else if m = 2 then d - 58 - l
      else if m = 3 then d - 89 - l
      else if m = 4 then d - 119 - l
      else if m = 5 then d - 150 - l
      else if m = 6 then d - 180 - l
      else if m = 7 then d - 211 - l
      else if m = 8 then d - 242 - l
      else if m = 9 then d - 272 - l
      else if m = 10 then d - 303 - l
      else d - 333 - l)"

definition HourFromTime :: "int \<Rightarrow> int" where
  "HourFromTime t = (t div 3600000) mod 24"

definition MinFromTime :: "int \<Rightarrow> int" where
  "MinFromTime t = (t div 60000) mod 60"

definition SecFromTime :: "int \<Rightarrow> int" where
  "SecFromTime t = (t div 1000) mod 60"

definition msFromTime :: "int \<Rightarrow> int" where
  "msFromTime t = t mod 1000"

definition MakeTime :: "int \<Rightarrow> int \<Rightarrow> int \<Rightarrow> int \<Rightarrow> int" where
  "MakeTime h m s ms = h * 3600000 + m * 60000 + s * 1000 + ms"

text \<open>The day within its year on which month \<open>mn\<close> (from 0) starts.\<close>

definition month_start :: "int \<Rightarrow> int \<Rightarrow> int" where
  "month_start mn l =
     (if mn = 0 then 0
      else if mn = 1 then 31
      else if mn = 2 then 59 + l
      else if mn = 3 then 90 + l
      else if mn = 4 then 120 + l
      else if mn = 5 then 151 + l
      else if mn = 6 then 181 + l
      else if mn = 7 then 212 + l
      else if mn = 8 then 243 + l
      else if mn = 9 then 273 + l
      else if mn = 10 then 304 + l
      else 334 + l)"

text \<open>MakeDay: the day number of the first of month \<open>month mod 12\<close> of year
  \<open>year + month div 12\<close>, plus \<open>date - 1\<close>; fields out of range roll over.\<close>

definition MakeDay :: "int \<Rightarrow> int \<Rightarrow> int \<Rightarrow> int" where
  "MakeDay year month date =
     (let ym = year + month div 12; mn = month mod 12 in
      DayFromYear ym + month_start mn (if DaysInYear ym = 366 then 1 else 0) + date - 1)"

definition MakeDate :: "int \<Rightarrow> int \<Rightarrow> int" where
  "MakeDate day time = day * msPerDay + time"

definition TimeClip :: "int \<Rightarrow> int option" where
  "TimeClip t = (if \<bar>t\<bar> > 8640000000000000 then None else Some t)"

text \<open>\<open>Date.UTC(y, m, d, h, mi, s)\<close>: a year from 0 to 99 stands for 1900 + year.\<close>

definition Date_UTC :: "int \<Rightarrow> int \<Rightarrow> int \<Rightarrow> int \<Rightarrow> int \<Rightarrow> int \<Rightarrow> int option" where
  "Date_UTC y m d h mi s =
     (let yr = (if 0 \<le> y \<and> y \<le> 99 then 1900 + y else y) in
      TimeClip (MakeDate (MakeDay yr m d) (MakeTime h mi s 0)))"

text \<open>Decimal digits of a natural number, padded with zeros on the left to a width.\<close>

definition pad :: "nat \<Rightarrow> nat \<Rightarrow> string" where
  "pad w n = (let s = string_of_nat n in replicate (w - length s) (CHR ''0'') @ s)"

text \<open>
  \<open>toISOString\<close>: a RangeError for an invalid date, \<open>YYYY-MM-DDTHH:mm:ss.sssZ\<close> otherwise,
  the year with a sign and six digits when it is not within 0 to 9999.
\<close>

definition iso_year :: "int \<Rightarrow> string" where
  "iso_year y =
     (if 0 \<le> y \<and> y \<le> 9999 then pad 4 (nat y)
      else (if y < 0 then ''-'' else ''+'') @ pad 6 (nat \<bar>y\<bar>))"

definition toISOString :: "int option \<Rightarrow> js_error + string" where
  "toISOString tv =
     (case tv of
        None \<Rightarrow> Inl RangeError
      | Some t \<Rightarrow>
          Inr (iso_year (YearFromTime t) @ ''-'' @ pad 2 (nat (MonthFromTime t + 1)) @ ''-''
               @ pad 2 (nat (DateFromTime t)) @ ''T'' @ pad 2 (nat (HourFromTime t)) @ '':''
               @ pad 2 (nat (MinFromTime t)) @ '':'' @ pad 2 (nat (SecFromTime t)) @ ''.''
               @ pad 3 (nat (msFromTime t)) @ ''Z''))"

text \<open>
  \<open>new Date(v)\<close> for one argument: a string is parsed, anything else is converted to a
  number. What \<open>Date.parse\<close> recognises beyond the ISO format is left to the
  implementation, so the parser is a parameter: \<open>parse s\<close> is the time value of \<open>s\<close>,
  or \<open>None\<close> (NaN) for a string it does not recognise. An array or object is first
  converted to its string.
\<close>

fun new_Date :: "(string \<Rightarrow> int option) \<Rightarrow> jsval \<Rightarrow> int option" where
  "new_Date parse (JStr s) = Option.bind (parse s) TimeClip"
| "new_Date parse (JNum n) = TimeClip n"
| "new_Date parse (JBool b) = TimeClip (if b then 1 else 0)"
| "new_Date parse JNull = TimeClip 0"
| "new_Date parse JUndefined = None"
| "new_Date parse v = Option.bind (parse (js_toString v)) TimeClip"

subsection \<open>formatDate\<close>

definition is_digit :: "char \<Rightarrow> bool" where
  "is_digit c = (48 \<le> (of_char c :: nat) \<and> (of_char c :: nat) \<le> 57)"

text \<open>The number a string of digits denotes (unary \<open>+\<close> on a matched group).\<close>

definition num_of_digits :: "string \<Rightarrow> int" where
  "num_of_digits s = int (foldl (\<lambda>n c. 10 * n + (of_char c - 48)) 0 s)"

text \<open>
  \<open>/D:(\d{4})(\d{2})(\d{2})(\d{2})(\d{2})(\d{2})/.exec(s)\<close>: the pattern is not anchored, so
  the leftmost position of \<open>s\<close> at which \<open>D:\<close> and fourteen digits stand is the match;
  the result is the six groups.
\<close>

definition match_here :: "string \<Rightarrow> (string \<times> string \<times> string \<times> string \<times> string \<times> string) option" where
  "match_here s =
     (if take 2 s = ''D:'' \<and> 16 \<le> length s \<and> list_all is_digit (take 14 (drop 2 s))
      then Some (take 4 (drop 2 s), take 2 (drop 6 s), take 2 (drop 8 s),
                 take 2 (drop 10 s), take 2 (drop 12 s), take 2 (drop 14 s))
      else None)"

fun pdf_date_exec :: "string \<Rightarrow> (string \<times> string \<times> string \<times> string \<times> string \<times> string) option" where
  "pdf_date_exec [] = None"
| "pdf_date_exec (c # cs) =
     (case match_here (c # cs) of Some g \<Rightarrow> Some g | None \<Rightarrow> pdf_date_exec cs)"

text \<open>\<open>s.replace(pat, rep)\<close> with a string pattern: the first occurrence only.\<close>

fun replace_first :: "string \<Rightarrow> string \<Rightarrow> string \<Rightarrow> string" where
  "replace_first pat rep [] = (if pat = [] then rep else [])"
| "replace_first pat rep (c # cs) =
     (if take (length pat) (c # cs) = pat then rep @ drop (length pat) (c # cs)
      else c # replace_first pat rep cs)"

definition formatDate :: "(string \<Rightarrow> int option) \<Rightarrow> jsval \<Rightarrow> js_error + string" where
  "formatDate parse ts =
     (if \<not> truthy ts then Inr []
      else case pdf_date_exec (js_toString ts) of
        Some (y, mo, d, h, mi, s) \<Rightarrow>
          (case toISOString (Date_UTC (num_of_digits y) (num_of_digits mo - 1) (num_of_digits d)
                               (num_of_digits h) (num_of_digits mi) (num_of_digits s)) of
             Inl e \<Rightarrow> Inl e
           | Inr txt \<Rightarrow> Inr (replace_first ''.000Z'' ''Z'' (replace_first ''T'' '' '' txt)))
      | None \<Rightarrow> toISOString (new_Date parse ts))"

section \<open>Extraction of the comments\<close>

record CommentEntry =
  Page :: int
  Author :: jsval
  Comment :: string
  Modified :: string

text \<open>
  An annotation is an object; \<open>field a k\<close> is the read \<open>a.k\<close>. The fields are untyped, so
  the author of an entry is whatever truthy value the annotation held (or the empty string).
\<close>

type_synonym annotation = "(string \<times> jsval) list"

definition field :: "annotation \<Rightarrow> string \<Rightarrow> jsval" where
  "field a k = js_prop (JObj a) k"

text \<open>\<open>a.subtype || a.annotationType || ""\<close>\<close>

definition annot_subtype :: "annotation \<Rightarrow> jsval" where
  "annot_subtype a = js_or (js_or (field a ''subtype'') (field a ''annotationType'')) (JStr [])"

text \<open>\<open>xs.join(sep)\<close> of an array value.\<close>

fun array_join :: "string \<Rightarrow> jsval \<Rightarrow> string" where
  "array_join sep (JArr xs) = js_join sep xs"
| "array_join sep v = []"

text \<open>The value of the variable \<open>contents\<close> after the chain of tests on \<open>a.contents\<close> and
  \<open>a.contentsObj\<close>.\<close>

definition annot_contents :: "annotation \<Rightarrow> jsval" where
  "annot_contents a =
     (let c = field a ''contents''; co = field a ''contentsObj'' in
      if is_string c then c
      else if truthy c \<and> typeof_object c then
        (if truthy (js_prop c ''str'') then js_prop c ''str''
         else if truthy (js_prop c ''text'') then js_prop c ''text''
         else if isArray c then JStr (array_join '' '' c)
         else JSON_stringify c)
      else if truthy co then
        (if is_string co then co
         else if truthy (js_prop co ''str'') then js_prop co ''str''
         else JSON_stringify co)
      else JStr [])"

text \<open>The value of the variable \<open>author\<close>.\<close>

definition annot_author :: "annotation \<Rightarrow> jsval" where
  "annot_author a =
     (if truthy (field a ''titleObj'') \<and> truthy (js_prop (field a ''titleObj'') ''str'')
        then js_prop (field a ''titleObj'') ''str''
      else if truthy (field a ''title'') then field a ''title''
      else if truthy (field a ''T'')
        then (if is_string (field a ''T'') then field a ''T''
              else js_or (js_prop (field a ''T'') ''str'') (JStr []))
      else if truthy (field a ''user'') then field a ''user''
      else if truthy (field a ''author'') then field a ''author''
      else if truthy (field a ''userName'') then field a ''userName''
      else JStr [])"

text \<open>\<open>a.modificationDate || a.modDate || a.modified || ""\<close>\<close>

definition annot_mod :: "annotation \<Rightarrow> jsval" where
  "annot_mod a =
     js_or (js_or (js_or (field a ''modificationDate'') (field a ''modDate'')) (field a ''modified''))
       (JStr [])"

text \<open>
  The body of the loop over the annotations of page \<open>pageNum\<close>: \<open>Inr None\<close> when nothing
  is pushed, \<open>Inr (Some e)\<close> when \<open>e\<close> is pushed, \<open>Inl\<close> when the body throws.
  \<open>contents.trim()\<close> is a TypeError on a truthy value that is no string, and
  \<open>formatDate\<close> is called only once the trimmed text is known not to be empty.
\<close>

definition process_annotation ::
  "(string \<Rightarrow> int option) \<Rightarrow> int \<Rightarrow> annotation \<Rightarrow> js_error + CommentEntry option" where
  "process_annotation parse pageNum a =
     (if annot_subtype a \<noteq> JStr ''Text'' then Inr None
      else
        let contents = annot_contents a; author = annot_author a; modv = annot_mod a in
        if \<not> truthy contents then Inr None
        else case contents of
          JStr s \<Rightarrow>
            if trim s = [] then Inr None
            else (case formatDate parse modv of
                    Inl e \<Rightarrow> Inl e
                  | Inr m \<Rightarrow>
                      Inr (Some \<lparr>Page = pageNum, Author = author, Comment = trim s, Modified = m\<rparr>))
        | _ \<Rightarrow> Inl TypeError)"

text \<open>\<open>for (const a of annots)\<close>, pushing to \<open>found\<close>.\<close>

fun annots_loop ::
  "(string \<Rightarrow> int option) \<Rightarrow> int \<Rightarrow> annotation list \<Rightarrow> CommentEntry list
    \<Rightarrow> js_error + CommentEntry list" where
  "annots_loop parse pageNum [] found = Inr found"
| "annots_loop parse pageNum (a # annots) found =
     (case process_annotation parse pageNum a of
        Inl e \<Rightarrow> Inl e
      | Inr None \<Rightarrow> annots_loop parse pageNum annots found
      | Inr (Some c) \<Rightarrow> annots_loop parse pageNum annots (found @ [c]))"

text \<open>\<open>for (let pageNum = 1; pageNum <= pdf.numPages; pageNum++)\<close>: the document is the list
  of its pages, each the list of annotations the parser returns for it; the function is
  started at page 1.\<close>

fun pages_loop ::
  "(string \<Rightarrow> int option) \<Rightarrow> int \<Rightarrow> annotation list list \<Rightarrow> CommentEntry list
    \<Rightarrow> js_error + CommentEntry list" where
  "pages_loop parse pageNum [] found = Inr found"
| "pages_loop parse pageNum (annots # pages) found =
     (case annots_loop parse pageNum annots found of
        Inl e \<Rightarrow> Inl e
      | Inr found' \<Rightarrow> pages_loop parse (pageNum + 1) pages found')"

text \<open>
  The state \<open>handleFileSelect\<close> writes. \<open>error\<close> holds the exception caught (the program
  stores its message, or a default text when it has none; \<open>None\<close> is the empty message).
  The argument \<open>pdf\<close> is the document as the PDF parser returns it; reading the file and
  opening it with the parser are outside the model, and so is the call without a file,
  which changes nothing.
\<close>

record app_state =
  comments :: "CommentEntry list"
  error :: "js_error option"
  noCommentsWarning :: bool
  loading :: bool

definition handleFileSelect ::
  "(string \<Rightarrow> int option) \<Rightarrow> annotation list list \<Rightarrow> app_state \<Rightarrow> app_state" where
  "handleFileSelect parse pdf st =
     (let st1 = st\<lparr>error := None, comments := [], loading := True\<rparr> in
      case pages_loop parse 1 pdf [] of
        Inr found \<Rightarrow>
          st1\<lparr>comments := found,
              noCommentsWarning := (if length found = 0 then True else noCommentsWarning st1),
              loading := False\<rparr>
      | Inl e \<Rightarrow> st1\<lparr>error := Some e, loading := False\<rparr>)"

section \<open>Export\<close>

text \<open>\<open>columnVisibility\<close> is an object from column names to flags, its keys in insertion
  order.\<close>

definition selectedFields :: "(string \<times> bool) list \<Rightarrow> string list" where
  "selectedFields columnVisibility =
     filter (\<lambda>col. map_of columnVisibility col = Some True \<and> col \<noteq> ''__check__'')
       (map fst columnVisibility)"

text \<open>\<open>comments[index]\<close>: \<open>undefined\<close> (here \<open>None\<close>) outside the array.\<close>

definition comment_at :: "CommentEntry list \<Rightarrow> int \<Rightarrow> CommentEntry option" where
  "comment_at cs i = (if 0 \<le> i \<and> i < int (length cs) then Some (cs ! nat i) else None)"

text \<open>\<open>selectedRows.length > 0 ? selectedRows.map(index => comments[index]).filter(Boolean)
  : comments\<close>; an entry is an object, hence truthy.\<close>

definition selectedComments :: "CommentEntry list \<Rightarrow> int list \<Rightarrow> CommentEntry list" where
  "selectedComments cs selectedRows =
     (if length selectedRows > 0
      then map the (filter (\<lambda>x. x \<noteq> None) (map (comment_at cs) selectedRows))
      else cs)"

text \<open>\<open>(c as any)[field]?.toString() || ""\<close> for a column name. The column names are
  the keys of \<open>DEFAULT_COLUMNS\<close>, the four fields of an entry and \<open>__check__\<close>; any
  other name is taken to name no property of the entry (the properties an object inherits,
  such as \<open>constructor\<close>, are not modelled).\<close>

definition field_text :: "CommentEntry \<Rightarrow> string \<Rightarrow> string" where
  "field_text c f =
     (if f = ''Page'' then string_of_int (Page c)
      else if f = ''Author''
        then (if Author c = JUndefined \<or> Author c = JNull then [] else js_toString (Author c))
      else if f = ''Comment'' then Comment c
      else if f = ''Modified'' then Modified c
      else [])"

text \<open>\<open>value.replace(/"/g, '""')\<close>\<close>

fun double_quotes :: "string \<Rightarrow> string" where
  "double_quotes [] = []"
| "double_quotes (c # cs) = (if c = DQ then DQ # DQ # double_quotes cs else c # double_quotes cs)"

definition escapeCSVField :: "string \<Rightarrow> string \<Rightarrow> string" where
  "escapeCSVField v fieldName =
     (if v = [] then []
      else if fieldName = ''Comment'' then [DQ] @ double_quotes v @ [DQ]
      else if CHR '','' \<in> set v \<or> DQ \<in> set v \<or> LF \<in> set v \<or> CR \<in> set v
        then [DQ] @ double_quotes v @ [DQ]
      else v)"

text \<open>\<open>saveCSV\<close>: the text of the blob handed to \<open>saveAs\<close>, \<open>None\<close> when the function
  returns before saving. The name of the file is not modelled.\<close>

definition saveCSV :: "CommentEntry list \<Rightarrow> int list \<Rightarrow> (string \<times> bool) list \<Rightarrow> string option" where
  "saveCSV cs selectedRows columnVisibility =
     (let flds = selectedFields columnVisibility in
      if length flds = 0 then None
      else
        let rows = map (\<lambda>c. str_join '','' (map (\<lambda>f. escapeCSVField (field_text c f) f) flds))
                     (selectedComments cs selectedRows)
        in Some (str_join [LF] (str_join '','' flds # rows)))"

text \<open>The line of one entry in \<open>formatTextContent\<close>.\<close>

definition text_line :: "string list \<Rightarrow> CommentEntry \<Rightarrow> string" where
  "text_line flds c =
     (let parts0 = [];
          parts1 = (if ''Page'' \<in> set flds then parts0 @ [''P'' @ string_of_int (Page c)] else parts0);
          parts2 = (if ''Author'' \<in> set flds \<and> truthy (Author c)
                    then parts1 @ [js_toString (Author c)] else parts1);
          parts3 = (if ''Modified'' \<in> set flds \<and> Modified c \<noteq> []
                    then parts2 @ [Modified c] else parts2);
          pre = (if length parts3 > 0 then str_join '', '' parts3 else [])
      in if ''Comment'' \<in> set flds
         then (if pre \<noteq> [] then pre @ '' - '' @ Comment c else Comment c)
         else pre)"

definition formatTextContent :: "CommentEntry list \<Rightarrow> int list \<Rightarrow> (string \<times> bool) list \<Rightarrow> string" where
  "formatTextContent cs selectedRows columnVisibility =
     (let flds = selectedFields columnVisibility in
      if length flds = 0 then []
      else str_join [LF, LF] (map (text_line flds) (selectedComments cs selectedRows)))"

definition escapeTSVField :: "string \<Rightarrow> string" where
  "escapeTSVField v = (if v = [] then [DQ, DQ] else [DQ] @ double_quotes v @ [DQ])"

text \<open>\<open>copyCSVToClipboard\<close>: the text written to the clipboard.\<close>

definition copyCSVToClipboard ::
  "CommentEntry list \<Rightarrow> int list \<Rightarrow> (string \<times> bool) list \<Rightarrow> string option" where
  "copyCSVToClipboard cs selectedRows columnVisibility =
     (let flds = selectedFields columnVisibility in
      if length flds = 0 then None
      else
        let header = str_join [TAB] (map escapeTSVField flds);
            rows = map (\<lambda>c. str_join [TAB] (map (\<lambda>f. escapeTSVField (field_text c f)) flds))
                     (selectedComments cs selectedRows)
        in Some (str_join [LF] (header # rows)))"

section \<open>The vocabulary of the claims\<close>

subsection \<open>The entries of a page and of a document\<close>

text \<open>
  The entries that the annotations of page \<open>n\<close> yield, in the order of the annotations,
  and those of the pages of a document, the first page being page \<open>n\<close>.
\<close>

definition page_entries :: "(string \<Rightarrow> int option) \<Rightarrow> int \<Rightarrow> annotation list \<Rightarrow> CommentEntry list" where
  "page_entries parse n annots =
     List.map_filter
       (\<lambda>a. case process_annotation parse n a of Inr (Some c) \<Rightarrow> Some c | _ \<Rightarrow> None) annots"

fun doc_entries :: "(string \<Rightarrow> int option) \<Rightarrow> int \<Rightarrow> annotation list list \<Rightarrow> CommentEntry list" where
  "doc_entries parse n [] = []"
| "doc_entries parse n (annots # pages) = page_entries parse n annots @ doc_entries parse (n + 1) pages"

subsection \<open>The subtype as the specification words it\<close>

text \<open>
  The first of the fields \<open>subtype\<close> and \<open>annotationType\<close> that is present, that is,
  that the annotation holds with whatever value; the empty string when it holds neither.
\<close>

definition spec_subtype :: "annotation \<Rightarrow> jsval" where
  "spec_subtype a =
     (if field a ''subtype'' \<noteq> JUndefined then field a ''subtype''
      else if field a ''annotationType'' \<noteq> JUndefined then field a ''annotationType''
      else JStr [])"

subsection \<open>The fallback chains as the specification words them\<close>

text \<open>
  The specification describes the comment text and the author as the first source of an
  ordered chain that yields something non-empty. \<open>first_truthy\<close> is that choice (the
  empty string when no source yields anything); the two lists are the sources in the
  order of the specification. A source yields something when its value is set and not
  empty (truthy).
\<close>

fun first_truthy :: "jsval list \<Rightarrow> jsval" where
  "first_truthy [] = JStr []"
| "first_truthy (v # vs) = (if truthy v then v else first_truthy vs)"

text \<open>An object-shaped field: a value that is an object (or array) and not \<open>null\<close>.\<close>

definition object_shaped :: "jsval \<Rightarrow> bool" where
  "object_shaped v = (truthy v \<and> typeof_object v)"

text \<open>
  The direct string content field; the string sub-field and the alternate text sub-field of
  an object-shaped content field; a list-shaped content field joined with single spaces;
  the JSON text of the content object; then the secondary contents-object field with the
  same unwrapping: itself when a string, its string sub-field and its alternate text
  sub-field when object-shaped, its elements joined with single spaces when a list. The
  specification names no JSON text for the contents-object field.
\<close>

definition spec_contents_sources :: "annotation \<Rightarrow> jsval list" where
  "spec_contents_sources a =
     (let c = field a ''contents''; co = field a ''contentsObj'' in
      [if is_string c then c else JUndefined,
       if object_shaped c then js_prop c ''str'' else JUndefined,
       if object_shaped c then js_prop c ''text'' else JUndefined,
       if isArray c then JStr (array_join '' '' c) else JUndefined,
       if object_shaped c then JSON_stringify c else JUndefined,
       if is_string co then co else JUndefined,
       if object_shaped co then js_prop co ''str'' else JUndefined,
       if object_shaped co then js_prop co ''text'' else JUndefined,
       if isArray co then JStr (array_join '' '' co) else JUndefined])"

text \<open>
  The object-wrapped title string, the bare title field, the raw author-title tag (itself
  when a string, else its string sub-field), and the fields user, author and userName.
\<close>

definition spec_author_sources :: "annotation \<Rightarrow> jsval list" where
  "spec_author_sources a =
     [js_prop (field a ''titleObj'') ''str'',
      field a ''title'',
      if is_string (field a ''T'') then field a ''T'' else js_prop (field a ''T'') ''str'',
      field a ''user'',
      field a ''author'',
      field a ''userName'']"

subsection \<open>The export formats as the specification words them\<close>

text \<open>A value wrapped in double quotes, each double quote inside it doubled.\<close>

definition csv_quoted :: "string \<Rightarrow> string" where
  "csv_quoted v = [DQ] @ concat (map (\<lambda>ch. if ch = DQ then [DQ, DQ] else [ch]) v) @ [DQ]"

text \<open>A value that contains a comma, a double quote or a line terminator.\<close>

definition needs_quotes :: "string \<Rightarrow> bool" where
  "needs_quotes v = (\<exists>ch\<in>set v. ch = CHR '','' \<or> ch = DQ \<or> ch = LF \<or> ch = CR)"

text \<open>
  The value of a field of an entry: the page number in decimal digits, the author as text
  (nothing when no author is set), the modification date, the comment. And its cell in the
  CSV text: the comment always quoted, any other value quoted exactly when it needs it.
\<close>

definition spec_field_value :: "CommentEntry \<Rightarrow> string \<Rightarrow> string" where
  "spec_field_value c f =
     (if f = ''Page'' then string_of_int (Page c)
      else if f = ''Author'' then
        (case Author c of JStr a \<Rightarrow> a | JUndefined \<Rightarrow> [] | JNull \<Rightarrow> []
         | _ \<Rightarrow> js_toString (Author c))
      else if f = ''Modified'' then Modified c
      else if f = ''Comment'' then Comment c
      else [])"

definition spec_csv_cell :: "CommentEntry \<Rightarrow> string \<Rightarrow> string" where
  "spec_csv_cell c f =
     (if f = ''Comment'' then csv_quoted (Comment c)
      else if needs_quotes (spec_field_value c f) then csv_quoted (spec_field_value c f)
      else spec_field_value c f)"

text \<open>
  The prefix of an entry in the text export: of the enabled fields, the page as
  \<open>P<number>\<close>, the author if not empty and the modification date if not empty, joined
  with a comma and a space; and the line of the entry.
\<close>

definition spec_prefix :: "string list \<Rightarrow> CommentEntry \<Rightarrow> string" where
  "spec_prefix flds c =
     str_join '', ''
       ((if ''Page'' \<in> set flds then [''P'' @ string_of_int (Page c)] else []) @
        (if ''Author'' \<in> set flds \<and> truthy (Author c) then [js_toString (Author c)] else []) @
        (if ''Modified'' \<in> set flds \<and> Modified c \<noteq> [] then [Modified c] else []))"

definition spec_line :: "string list \<Rightarrow> CommentEntry \<Rightarrow> string" where
  "spec_line flds c =
     (if ''Comment'' \<in> set flds
      then (if spec_prefix flds c \<noteq> [] then spec_prefix flds c @ '' - '' @ Comment c else Comment c)
      else spec_prefix flds c)"

subsection \<open>Calendar dates\<close>

text \<open>The value of a digit.\<close>

definition digit_val :: "char \<Rightarrow> nat" where
  "digit_val c = of_char c - 48"

text \<open>
  The digits of a timestamp denote a date of the calendar and a time of day when the month
  is from 1 to 12, the day from 1 to the length of that month in that year, the hour at
  most 23, the minute and the second at most 59. The years from 0 to 99, which
  \<open>Date.UTC\<close> reads as 1900 to 1999, are left out.
\<close>

definition days_in_month :: "int \<Rightarrow> int \<Rightarrow> int" where
  "days_in_month y m =
     (if m = 2 then (if DaysInYear y = 366 then 29 else 28)
      else if m = 4 \<or> m = 6 \<or> m = 9 \<or> m = 11 then 30
      else 31)"

definition valid_date_time :: "int \<Rightarrow> int \<Rightarrow> int \<Rightarrow> int \<Rightarrow> int \<Rightarrow> int \<Rightarrow> bool" where
  "valid_date_time y m d h mi s =
     (100 \<le> y \<and> 1 \<le> m \<and> m \<le> 12 \<and> 1 \<le> d \<and> d \<le> days_in_month y m \<and>
      h \<le> 23 \<and> mi \<le> 59 \<and> s \<le> 59)"

section \<open>Example data\<close>

text \<open>A date parser that recognises no string, for the examples whose timestamps are PDF
  dates, empty, or no dates at all.\<close>

definition parse_unrecognised :: "string \<Rightarrow> int option" where
  "parse_unrecognised s = None"

text \<open>The state before a document is loaded.\<close>

definition st0 :: app_state where
  "st0 = \<lparr>comments = [], error = None, noCommentsWarning = False, loading = False\<rparr>"

text \<open>Five entries on four pages.\<close>

definition five_comments :: "CommentEntry list" where
  "five_comments =
     [\<lparr>Page = 1, Author = JStr ''Alice'', Comment = ''a'', Modified = []\<rparr>,
      \<lparr>Page = 1, Author = JStr [], Comment = ''b'', Modified = []\<rparr>,
      \<lparr>Page = 2, Author = JStr ''Bob'', Comment = ''c'', Modified = []\<rparr>,
      \<lparr>Page = 3, Author = JStr [], Comment = ''d'', Modified = []\<rparr>,
      \<lparr>Page = 4, Author = JStr [], Comment = ''e'', Modified = []\<rparr>]"

text \<open>A document of two pages: a highlight and a text comment on the first, a text comment
  whose text is in the contents object on the second; and its entries.\<close>

definition demo_pdf :: "annotation list list" where
  "demo_pdf =
     [[[(''subtype'', JStr ''Highlight''), (''contents'', JStr ''marked'')],
       [(''subtype'', JStr ''Text''), (''contents'', JStr ''Looks good''), (''title'', JStr ''Alice'')]],
      [[(''subtype'', JStr ''Text''), (''contentsObj'', JObj [(''str'', JStr '' Fix this '')])]]]"

definition demo_entries :: "CommentEntry list" where
  "demo_entries =
     [\<lparr>Page = 1, Author = JStr ''Alice'', Comment = ''Looks good'', Modified = []\<rparr>,
      \<lparr>Page = 2, Author = JStr [], Comment = ''Fix this'', Modified = []\<rparr>]"

text \<open>A text comment whose \<open>subtype\<close> field is present but empty.\<close>

definition empty_subtype_annotation :: annotation where
  "empty_subtype_annotation =
     [(''subtype'', JStr []), (''annotationType'', JStr ''Text''), (''contents'', JStr ''b'')]"






definition object_T_then_user :: annotation where
  "object_T_then_user =
     [(''subtype'', JStr ''Text''), (''contents'', JStr ''x''), (''T'', JObj []), (''user'', JStr ''Bob'')]"

definition string_T_then_user :: annotation where
  "string_T_then_user =
     [(''subtype'', JStr ''Text''), (''contents'', JStr ''x''), (''T'', JStr ''Al''), (''user'', JStr ''Bob'')]"

text \<open>Column choices, and an entry whose fields need quoting.\<close>

definition all_columns_off :: "(string \<times> bool) list" where
  "all_columns_off =
     [(''Page'', False), (''Author'', False), (''Modified'', False), (''Comment'', False),
      (''__check__'', True)]"

definition page_author_comment :: "(string \<times> bool) list" where
  "page_author_comment =
     [(''Page'', True), (''Author'', True), (''Modified'', False), (''Comment'', True),
      (''__check__'', True)]"

definition quoted_entry :: CommentEntry where
  "quoted_entry = \<lparr>Page = 7, Author = JStr ''Doe, J'', Comment = ''say '' @ [DQ] @ ''hi'' @ [DQ], Modified = []\<rparr>"

text \<open>All four columns enabled, and an entry with a modification date.\<close>

definition all_columns_on :: "(string \<times> bool) list" where
  "all_columns_on =
     [(''Page'', True), (''Author'', True), (''Modified'', True), (''Comment'', True),
      (''__check__'', True)]"

definition dated_entry :: CommentEntry where
  "dated_entry =
     \<lparr>Page = 3, Author = JStr ''Ann'', Comment = ''a, b'', Modified = ''2024-01-15T10:30:00.000Z''\<rparr>"

text \<open>A text comment, one with a modification date that is no date, and one whose
  content object holds a number where the string is expected.\<close>

definition good_annotation :: annotation where
  "good_annotation = [(''subtype'', JStr ''Text''), (''contents'', JStr ''ok'')]"

definition bad_date_annotation :: annotation where
  "bad_date_annotation =
     [(''subtype'', JStr ''Text''), (''contents'', JStr ''x''),
      (''modificationDate'', JStr ''not a date'')]"

definition number_text_annotation :: annotation where
  "number_text_annotation =
     [(''subtype'', JStr ''Text''), (''contents'', JObj [(''str'', JNum 5)])]"

section \<open>Evaluation of the conversions\<close>

lemma string_of_nat_digit: "n < 10 \<Longrightarrow> string_of_nat n = [digit_char n]"
  by (simp add: string_of_nat.simps)

lemmas char_eval = digit_char_def char_of_def bit_Suc_0_iff

section \<open>The selection of rows\<close>

lemma selectedComments_eq:
  "selectedComments cs rows =
     (if rows = [] then cs
      else map (\<lambda>i. cs ! nat i) (filter (\<lambda>i. 0 \<le> i \<and> i < int (length cs)) rows))"
proof -
  have "map the (filter (\<lambda>x. x \<noteq> None) (map (comment_at cs) rows)) =
        map (\<lambda>i. cs ! nat i) (filter (\<lambda>i. 0 \<le> i \<and> i < int (length cs)) rows)"
    by (induction rows) (simp_all add: comment_at_def)
  then show ?thesis by (simp add: selectedComments_def)
qed

lemma ascending_indices:
  fixes ks :: "nat list"
  assumes "sorted_wrt (<) ks" and "set ks \<subseteq> {..<n}"
  shows "filter (\<lambda>k. k \<in> set ks) [0..<n] = ks"
proof (rule sorted_distinct_set_unique)
  show "sorted (filter (\<lambda>k. k \<in> set ks) [0..<n])" by (rule sorted_wrt_filter) simp
  show "distinct (filter (\<lambda>k. k \<in> set ks) [0..<n])" by simp
  show "sorted ks" "distinct ks" using assms(1) by (simp_all add: strict_sorted_iff)
  show "set (filter (\<lambda>k. k \<in> set ks) [0..<n]) = set ks" using assms(2) by auto
qed

lemma ascending_selection:
  assumes "sorted_wrt (<) rows" and "\<forall>i\<in>set rows. 0 \<le> i \<and> i < int (length cs)"
  shows "map (\<lambda>i. cs ! nat i) rows = map (\<lambda>k. cs ! k) (filter (\<lambda>k. int k \<in> set rows) [0..<length cs])"
proof -
  have s: "sorted_wrt (<) (map nat rows)"
    using assms by (induction rows) (auto)
  have r: "set (map nat rows) \<subseteq> {..<length cs}" using assms(2) by auto
  have e: "int k \<in> set rows \<longleftrightarrow> k \<in> set (map nat rows)" for k
  proof
    assume "int k \<in> set rows"
    then have "nat (int k) \<in> nat ` set rows" by (rule imageI)
    then show "k \<in> set (map nat rows)" by simp
  next
    assume "k \<in> set (map nat rows)"
    then obtain i where i: "i \<in> set rows" "k = nat i" by auto
    with assms(2) have "int k = i" by simp
    with i show "int k \<in> set rows" by simp
  qed
  show ?thesis
    unfolding e ascending_indices [OF s r] by (simp add: comp_def)
qed

text \<open>
  C5, as amended. With an empty selection every entry is exported. Otherwise the export holds
  the entries at the selected indices in the order of the selection list, which is the order
  of the entries themselves when the selection list is ascending. An index stands for an
  entry when it is within the list (see \<open>out_of_range_dropped\<close> for the others).
\<close>

theorem selection_order:
  "selectedComments cs [] = cs \<and>
   (rows \<noteq> [] \<and> (\<forall>i\<in>set rows. 0 \<le> i \<and> i < int (length cs)) \<longrightarrow>
      selectedComments cs rows = map (\<lambda>i. cs ! nat i) rows) \<and>
   (rows \<noteq> [] \<and> (\<forall>i\<in>set rows. 0 \<le> i \<and> i < int (length cs)) \<and> sorted_wrt (<) rows \<longrightarrow>
      selectedComments cs rows =
        map (\<lambda>k. cs ! k) (filter (\<lambda>k. int k \<in> set rows) [0..<length cs]))"
proof (intro conjI impI)
  show "selectedComments cs [] = cs" by (simp add: selectedComments_def)
next
  assume a: "rows \<noteq> [] \<and> (\<forall>i\<in>set rows. 0 \<le> i \<and> i < int (length cs))"
  then have "filter (\<lambda>i. 0 \<le> i \<and> i < int (length cs)) rows = rows" by (simp add: filter_id_conv)
  with a show "selectedComments cs rows = map (\<lambda>i. cs ! nat i) rows"
    by (simp add: selectedComments_eq)
next
  assume a: "rows \<noteq> [] \<and> (\<forall>i\<in>set rows. 0 \<le> i \<and> i < int (length cs)) \<and> sorted_wrt (<) rows"
  then have "filter (\<lambda>i. 0 \<le> i \<and> i < int (length cs)) rows = rows" by (simp add: filter_id_conv)
  with a have "selectedComments cs rows = map (\<lambda>i. cs ! nat i) rows"
    by (simp add: selectedComments_eq)
  with a show "selectedComments cs rows =
        map (\<lambda>k. cs ! k) (filter (\<lambda>k. int k \<in> set rows) [0..<length cs])"
    using ascending_selection [of rows cs] by simp
qed

text \<open>The selection of the entries 0 and 2 out of five, given in ascending order.\<close>

theorem selection_order_witness:
  "selectedComments five_comments [0, 2] = [five_comments ! 0, five_comments ! 2]"
  using selection_order [of five_comments "[0, 2]"]
  by (simp add: five_comments_def)

text \<open>
  C5 as stated fails: the selection \<open>[2, 0]\<close> (entry 2 chosen before entry 0) exports
  entry 2 before entry 0, and so does the text export.
\<close>

theorem selection_order_counterexample:
  "selectedComments five_comments [2, 0] = [five_comments ! 2, five_comments ! 0] \<and>
   selectedComments five_comments [2, 0] \<noteq> [five_comments ! 0, five_comments ! 2] \<and>
   formatTextContent five_comments [2, 0] [(''Page'', True), (''Comment'', True)]
     = ''P2 - c'' @ [LF, LF] @ ''P1 - a''"
  by (simp add: selectedComments_def comment_at_def five_comments_def formatTextContent_def
      selectedFields_def text_line_def string_of_int_def string_of_nat_digit char_eval)

text \<open>
  C10. An index of the selection outside the list (negative, or at least the number of
  entries) stands for no entry and is dropped: the selected entries are those at the indices
  within range, all of them entries of the list, and each of the three exports is the
  export of exactly these entries.
\<close>

theorem out_of_range_dropped:
  "(rows \<noteq> [] \<longrightarrow>
      selectedComments cs rows =
        map (\<lambda>i. cs ! nat i) (filter (\<lambda>i. 0 \<le> i \<and> i < int (length cs)) rows)) \<and>
   set (selectedComments cs rows) \<subseteq> set cs \<and>
   saveCSV cs rows cv = saveCSV (selectedComments cs rows) [] cv \<and>
   formatTextContent cs rows cv = formatTextContent (selectedComments cs rows) [] cv \<and>
   copyCSVToClipboard cs rows cv = copyCSVToClipboard (selectedComments cs rows) [] cv"
proof -
  have e: "selectedComments (selectedComments cs rows) [] = selectedComments cs rows"
    by (simp add: selectedComments_def)
  have 1: "rows \<noteq> [] \<longrightarrow>
      selectedComments cs rows =
        map (\<lambda>i. cs ! nat i) (filter (\<lambda>i. 0 \<le> i \<and> i < int (length cs)) rows)"
    by (simp add: selectedComments_eq)
  have 2: "set (selectedComments cs rows) \<subseteq> set cs"
    by (auto simp: selectedComments_eq)
  have 3: "saveCSV cs rows cv = saveCSV (selectedComments cs rows) [] cv"
    by (simp only: saveCSV_def e)
  have 4: "formatTextContent cs rows cv = formatTextContent (selectedComments cs rows) [] cv"
    by (simp only: formatTextContent_def e)
  have 5: "copyCSVToClipboard cs rows cv = copyCSVToClipboard (selectedComments cs rows) [] cv"
    by (simp only: copyCSVToClipboard_def e)
  from 1 2 3 4 5 show ?thesis by blast
qed

text \<open>The selection \<open>[1, 7, -1]\<close> of five entries exports entry 1 alone.\<close>

theorem out_of_range_dropped_witness:
  "selectedComments five_comments [1, 7, -1] = [five_comments ! 1] \<and>
   formatTextContent five_comments [1, 7, -1] [(''Comment'', True)] = ''b''"
  using out_of_range_dropped [of "[1, 7, -1]" five_comments "[(''Comment'', True)]"]
  by (simp add: five_comments_def formatTextContent_def selectedFields_def text_line_def
      selectedComments_def)

section \<open>The extraction loop\<close>

lemma dropWhile_rev_last:
  assumes "dropWhile P xs \<noteq> []"
  shows "last (dropWhile P xs) = last xs"
proof -
  have "xs = takeWhile P xs @ dropWhile P xs" by simp
  then have "last xs = last (takeWhile P xs @ dropWhile P xs)" by simp
  also have "\<dots> = last (dropWhile P xs)" using assms by (rule last_appendR)
  finally show ?thesis by simp
qed

lemma trim_idem: "trim (trim s) = trim s"
proof (cases "trim s = []")
  case True
  have "trim [] = []" by (simp add: trim_def)
  then show ?thesis by (simp only: True)
next
  case False
  define t where "t = dropWhile is_ws s"
  define r where "r = dropWhile is_ws (rev t)"
  have ts: "trim s = rev r" by (simp add: trim_def t_def r_def)
  with False have rne: "r \<noteq> []" by simp
  then have tne: "t \<noteq> []" by (auto simp: r_def)
  have "\<not> is_ws (hd t)" using tne unfolding t_def by (rule hd_dropWhile)
  moreover have "last r = last (rev t)" using rne unfolding r_def by (rule dropWhile_rev_last)
  moreover have "last (rev t) = hd t" using tne by (simp add: last_rev)
  moreover have "hd (rev r) = last r" using rne by (simp add: hd_rev)
  ultimately have "\<not> is_ws (hd (rev r))" by simp
  then have d: "dropWhile is_ws (rev r) = rev r" using rne by (cases "rev r") auto
  have i: "dropWhile is_ws r = r" by (simp add: r_def)
  have "trim (rev r) = rev (dropWhile is_ws (rev (dropWhile is_ws (rev r))))"
    by (simp only: trim_def)
  also have "\<dots> = rev (dropWhile is_ws (rev (rev r)))" by (simp only: d)
  also have "\<dots> = rev r" using i by simp
  finally show ?thesis by (simp only: ts)
qed

lemma process_non_text:
  "annot_subtype a \<noteq> JStr ''Text'' \<Longrightarrow> process_annotation parse n a = Inr None"
  by (simp add: process_annotation_def)

lemma process_Some:
  assumes "process_annotation parse n a = Inr (Some c)"
  shows "annot_subtype a = JStr ''Text''" and "Page c = n" and "Comment c \<noteq> []"
    and "trim (Comment c) = Comment c" and "Author c = annot_author a"
    and "\<exists>s. annot_contents a = JStr s \<and> Comment c = trim s"
    and "formatDate parse (annot_mod a) = Inr (Modified c)"
  using assms
  by (auto simp: process_annotation_def Let_def trim_idem
      split: if_splits jsval.splits sum.splits)

lemma page_entries_Cons:
  "page_entries parse n (a # annots) =
     (case process_annotation parse n a of Inr (Some c) \<Rightarrow> [c] | _ \<Rightarrow> []) @ page_entries parse n annots"
  by (simp add: page_entries_def List.map_filter_simps split: sum.splits option.splits)

lemma annots_loop_Inr:
  "annots_loop parse n annots found = Inr r \<Longrightarrow> r = found @ page_entries parse n annots"
proof (induction annots arbitrary: found)
  case Nil
  then show ?case by (simp add: page_entries_def List.map_filter_simps)
next
  case (Cons a annots)
  show ?case
  proof (cases "process_annotation parse n a")
    case (Inl e)
    with Cons.prems show ?thesis by simp
  next
    case (Inr o1)
    show ?thesis
    proof (cases o1)
      case None
      with Inr Cons.prems have "annots_loop parse n annots found = Inr r" by simp
      from Cons.IH [OF this] show ?thesis using Inr None by (simp add: page_entries_Cons)
    next
      case (Some c)
      with Inr Cons.prems have "annots_loop parse n annots (found @ [c]) = Inr r" by simp
      from Cons.IH [OF this] show ?thesis using Inr Some by (simp add: page_entries_Cons)
    qed
  qed
qed

lemma pages_loop_Inr:
  "pages_loop parse n pages found = Inr r \<Longrightarrow> r = found @ doc_entries parse n pages"
proof (induction pages arbitrary: n found)
  case Nil
  then show ?case by simp
next
  case (Cons annots pages)
  show ?case
  proof (cases "annots_loop parse n annots found")
    case (Inl e)
    with Cons.prems show ?thesis by simp
  next
    case (Inr f)
    with Cons.prems have "pages_loop parse (n + 1) pages f = Inr r" by simp
    from Cons.IH [OF this] annots_loop_Inr [OF Inr] show ?thesis by simp
  qed
qed

lemma page_entries_mem:
  "c \<in> set (page_entries parse n annots) \<longleftrightarrow>
     (\<exists>a\<in>set annots. process_annotation parse n a = Inr (Some c))"
proof (induction annots)
  case Nil
  show ?case by (simp add: page_entries_def List.map_filter_simps)
next
  case (Cons a annots)
  show ?case
    by (cases "process_annotation parse n a")
       (auto simp: page_entries_Cons Cons.IH split: option.splits)
qed

lemma doc_entries_mem:
  "c \<in> set (doc_entries parse n pages) \<Longrightarrow>
     \<exists>k<length pages. \<exists>a\<in>set (pages ! k). process_annotation parse (n + int k) a = Inr (Some c)"
proof (induction pages arbitrary: n)
  case Nil
  then show ?case by simp
next
  case (Cons annots pages)
  from Cons.prems consider "c \<in> set (page_entries parse n annots)"
    | "c \<in> set (doc_entries parse (n + 1) pages)" by auto
  then show ?case
  proof cases
    case 1
    then obtain a where "a \<in> set annots" "process_annotation parse n a = Inr (Some c)"
      by (auto simp: page_entries_mem)
    then show ?thesis by (intro exI [of _ 0]) auto
  next
    case 2
    from Cons.IH [OF 2] obtain k a where
      "k < length pages" "a \<in> set (pages ! k)"
      "process_annotation parse (n + 1 + int k) a = Inr (Some c)" by auto
    then show ?thesis by (intro exI [of _ "Suc k"]) (auto simp: algebra_simps)
  qed
qed

lemma doc_entries_Page:
  assumes "c \<in> set (doc_entries parse n pages)"
  shows "n \<le> Page c"
proof -
  from doc_entries_mem [OF assms] obtain k a where
    "process_annotation parse (n + int k) a = Inr (Some c)" by auto
  then have "Page c = n + int k" by (rule process_Some(2))
  then show ?thesis by simp
qed

lemma page_entries_Page: "c \<in> set (page_entries parse n annots) \<Longrightarrow> Page c = n"
  by (auto simp: page_entries_mem dest: process_Some(2))

lemma doc_entries_sorted: "sorted (map Page (doc_entries parse n pages))"
proof (induction pages arbitrary: n)
  case Nil
  then show ?case by simp
next
  case (Cons annots pages)
  have 1: "sorted (map Page (page_entries parse n annots))"
  proof -
    have "map Page (page_entries parse n annots) = map (\<lambda>c. n) (page_entries parse n annots)"
      by (rule map_cong) (simp_all add: page_entries_Page)
    then show ?thesis by (simp add: map_replicate_const)
  qed
  have 2: "\<And>x y. x \<in> set (page_entries parse n annots) \<Longrightarrow>
      y \<in> set (doc_entries parse (n + 1) pages) \<Longrightarrow> Page x \<le> Page y"
    using page_entries_Page doc_entries_Page by fastforce
  show ?case using 1 2 Cons.IH [of "n + 1"] by (auto simp: sorted_append)
qed

lemma doc_entries_page:
  "k < length pages \<Longrightarrow>
     filter (\<lambda>c. Page c = n + int k) (doc_entries parse n pages) = page_entries parse (n + int k) (pages ! k)"
proof (induction pages arbitrary: n k)
  case Nil
  then show ?case by simp
next
  case (Cons annots pages)
  show ?case
  proof (cases k)
    case 0
    have a: "filter (\<lambda>c. Page c = n) (page_entries parse n annots) = page_entries parse n annots"
      by (simp add: filter_id_conv page_entries_Page)
    have "Page c \<noteq> n" if "c \<in> set (doc_entries parse (n + 1) pages)" for c
      using doc_entries_Page [OF that] by simp
    then have b: "filter (\<lambda>c. Page c = n) (doc_entries parse (n + 1) pages) = []"
      by (simp add: filter_empty_conv)
    show ?thesis using 0 a b by simp
  next
    case (Suc j)
    have a: "filter (\<lambda>c. Page c = n + int k) (page_entries parse n annots) = []"
      using Suc by (auto simp: filter_empty_conv dest: page_entries_Page)
    have "filter (\<lambda>c. Page c = n + 1 + int j) (doc_entries parse (n + 1) pages)
           = page_entries parse (n + 1 + int j) (pages ! j)"
      using Cons.prems Suc by (intro Cons.IH) simp
    then show ?thesis using Suc a by (simp add: algebra_simps)
  qed
qed


lemma annots_loop_filter:
  "annots_loop parse n (filter (\<lambda>a. annot_subtype a = JStr ''Text'') annots) found
     = annots_loop parse n annots found"
proof (induction annots arbitrary: found)
  case Nil
  show ?case by simp
next
  case (Cons a annots)
  show ?case
  proof (cases "annot_subtype a = JStr ''Text''")
    case True
    then show ?thesis by (simp add: Cons.IH split: sum.splits option.splits)
  next
    case False
    then show ?thesis by (simp add: Cons.IH process_non_text)
  qed
qed

lemma pages_loop_filter:
  "pages_loop parse n (map (filter (\<lambda>a. annot_subtype a = JStr ''Text'')) pages) found
     = pages_loop parse n pages found"
  by (induction pages arbitrary: n found) (simp_all add: annots_loop_filter split: sum.splits)

lemma handleFileSelect_comments:
  "comments (handleFileSelect parse pdf st) =
     (case pages_loop parse 1 pdf [] of Inr found \<Rightarrow> found | Inl e \<Rightarrow> [])"
  by (simp add: handleFileSelect_def Let_def split: sum.splits)

lemma handleFileSelect_error:
  "error (handleFileSelect parse pdf st) =
     (case pages_loop parse 1 pdf [] of Inr found \<Rightarrow> None | Inl e \<Rightarrow> Some e)"
  by (simp add: handleFileSelect_def Let_def split: sum.splits)

lemma handleFileSelect_doc_entries:
  assumes "error (handleFileSelect parse pdf st) = None"
  shows "comments (handleFileSelect parse pdf st) = doc_entries parse 1 pdf"
proof (cases "pages_loop parse 1 pdf []")
  case (Inl e)
  with assms show ?thesis by (simp add: handleFileSelect_error)
next
  case (Inr found)
  from pages_loop_Inr [OF Inr] Inr show ?thesis by (simp add: handleFileSelect_comments)
qed

lemma handleFileSelect_subset:
  "set (comments (handleFileSelect parse pdf st)) \<subseteq> set (doc_entries parse 1 pdf)"
proof (cases "pages_loop parse 1 pdf []")
  case (Inl e)
  then show ?thesis by (simp add: handleFileSelect_comments)
next
  case (Inr found)
  from pages_loop_Inr [OF Inr] Inr show ?thesis by (simp add: handleFileSelect_comments)
qed

text \<open>
  C3, as amended. The subtype of an annotation is its \<open>subtype\<close> field when that is set and
  not empty (truthy), else its \<open>annotationType\<close> field when that is set and not empty, else
  the empty string. An annotation whose subtype is not the string \<open>Text\<close> pushes no
  entry; taking all such annotations out of the document changes nothing in what the
  extraction leaves behind; and every entry extracted is the one pushed for some
  annotation of subtype \<open>Text\<close>. Whenever the \<open>subtype\<close> field is absent or not empty,
  this subtype is \<open>Text\<close> exactly when the first field present is.
\<close>
theorem non_text_annotations_skipped:
  "annot_subtype a =
     (if truthy (field a ''subtype'') then field a ''subtype''
      else if truthy (field a ''annotationType'') then field a ''annotationType''
      else JStr []) \<and>
   (annot_subtype a \<noteq> JStr ''Text'' \<longrightarrow> process_annotation parse n a = Inr None) \<and>
   handleFileSelect parse pdf st =
     handleFileSelect parse (map (filter (\<lambda>a. annot_subtype a = JStr ''Text'')) pdf) st \<and>
   (\<forall>c\<in>set (comments (handleFileSelect parse pdf st)).
      \<exists>k<length pdf. \<exists>a\<in>set (pdf ! k).
        annot_subtype a = JStr ''Text'' \<and> process_annotation parse (1 + int k) a = Inr (Some c)) \<and>
   (field a ''subtype'' = JUndefined \<or> truthy (field a ''subtype'') \<longrightarrow>
      (annot_subtype a = JStr ''Text'') = (spec_subtype a = JStr ''Text''))"
proof (intro conjI impI ballI)
  show "annot_subtype a =
     (if truthy (field a ''subtype'') then field a ''subtype''
      else if truthy (field a ''annotationType'') then field a ''annotationType''
      else JStr [])"
    by (simp add: annot_subtype_def js_or_def)
next
  assume "annot_subtype a \<noteq> JStr ''Text''"
  then show "process_annotation parse n a = Inr None" by (rule process_non_text)
next
  show "handleFileSelect parse pdf st =
     handleFileSelect parse (map (filter (\<lambda>a. annot_subtype a = JStr ''Text'')) pdf) st"
    by (simp only: handleFileSelect_def pages_loop_filter)
next
  fix c assume "c \<in> set (comments (handleFileSelect parse pdf st))"
  then have "c \<in> set (doc_entries parse 1 pdf)" using handleFileSelect_subset by blast
  from doc_entries_mem [OF this] obtain k a where
    ka: "k < length pdf" "a \<in> set (pdf ! k)" "process_annotation parse (1 + int k) a = Inr (Some c)"
    by auto
  from process_Some(1) [OF ka(3)] ka
  show "\<exists>k<length pdf. \<exists>a\<in>set (pdf ! k).
        annot_subtype a = JStr ''Text'' \<and> process_annotation parse (1 + int k) a = Inr (Some c)"
    by blast
next
  assume h: "field a ''subtype'' = JUndefined \<or> truthy (field a ''subtype'')"
  show "(annot_subtype a = JStr ''Text'') = (spec_subtype a = JStr ''Text'')"
  proof (cases "truthy (field a ''subtype'')")
    case True
    then have "field a ''subtype'' \<noteq> JUndefined" by auto
    with True show ?thesis by (simp add: annot_subtype_def spec_subtype_def js_or_def)
  next
    case False
    with h have u: "field a ''subtype'' = JUndefined" by blast
    show ?thesis
    proof (cases "truthy (field a ''annotationType'')")
      case True
      then have "field a ''annotationType'' \<noteq> JUndefined" by auto
      with True u show ?thesis by (simp add: annot_subtype_def spec_subtype_def js_or_def)
    next
      case f: False
      then have "field a ''annotationType'' \<noteq> JStr ''Text''" by auto
      with f u show ?thesis by (simp add: annot_subtype_def spec_subtype_def js_or_def)
    qed
  qed
qed

lemma field_eval: "field a k = (case map_of a k of Some v \<Rightarrow> v | None \<Rightarrow> JUndefined)"
  by (simp add: field_def)

lemmas annot_eval = process_annotation_def annot_subtype_def annot_contents_def annot_author_def
  annot_mod_def field_eval js_or_def formatDate_def trim_def is_ws_def Let_def

lemma demo_pdf_entries:
  "pages_loop parse_unrecognised 1 demo_pdf [] = Inr demo_entries"
  by (simp add: demo_pdf_def demo_entries_def annot_eval)

text \<open>
  A highlight annotation next to two text comments.
\<close>
theorem non_text_annotations_skipped_witness:
  "annot_subtype [(''subtype'', JStr ''Highlight''), (''contents'', JStr ''marked'')] \<noteq> JStr ''Text'' \<and>
   process_annotation parse_unrecognised 1
     [(''subtype'', JStr ''Highlight''), (''contents'', JStr ''marked'')] = Inr None \<and>
   spec_subtype [(''subtype'', JStr ''Highlight''), (''contents'', JStr ''marked'')] \<noteq> JStr ''Text'' \<and>
   comments (handleFileSelect parse_unrecognised demo_pdf st0) = demo_entries"
proof -
  have h: "annot_subtype [(''subtype'', JStr ''Highlight''), (''contents'', JStr ''marked'')] \<noteq> JStr ''Text''"
    by (simp add: annot_subtype_def field_eval js_or_def)
  have t: "truthy (field [(''subtype'', JStr ''Highlight''), (''contents'', JStr ''marked'')] ''subtype'')"
    by (simp add: field_eval)
  have c: "comments (handleFileSelect parse_unrecognised demo_pdf st0) = demo_entries"
    by (simp add: handleFileSelect_comments demo_pdf_entries)
  from h t non_text_annotations_skipped
    [of "[(''subtype'', JStr ''Highlight''), (''contents'', JStr ''marked'')]"
        parse_unrecognised 1 demo_pdf st0]
  have "process_annotation parse_unrecognised 1
     [(''subtype'', JStr ''Highlight''), (''contents'', JStr ''marked'')] = Inr None \<and>
     spec_subtype [(''subtype'', JStr ''Highlight''), (''contents'', JStr ''marked'')] \<noteq> JStr ''Text''"
    by blast
  with h c show ?thesis by blast
qed

text \<open>
  C3 as stated fails: an annotation whose \<open>subtype\<close> field is present but empty and whose
  \<open>annotationType\<close> field is \<open>Text\<close> has the empty string as the first field present,
  which is not the text-comment kind, and yet its entry is pushed.
\<close>
theorem non_text_annotations_skipped_counterexample:
  "spec_subtype empty_subtype_annotation = JStr [] \<and>
   spec_subtype empty_subtype_annotation \<noteq> JStr ''Text'' \<and>
   annot_subtype empty_subtype_annotation = JStr ''Text'' \<and>
   process_annotation parse_unrecognised 1 empty_subtype_annotation =
     Inr (Some \<lparr>Page = 1, Author = JStr [], Comment = ''b'', Modified = []\<rparr>)"
  by (simp add: empty_subtype_annotation_def spec_subtype_def annot_eval)

text \<open>
  C4. Every extracted entry has a comment that is not empty and is its own trimmed form, and
  a page number of at least 1; the entries are in ascending order of their pages; and the
  entries of one page are those its annotations yield, in the order in which the parser
  returned the annotations (\<open>page_entries\<close> runs through them from first to last).
  When the extraction fails, the list of comments is empty.
\<close>
theorem extraction_invariants:
  "(\<forall>c\<in>set (comments (handleFileSelect parse pdf st)).
      Comment c \<noteq> [] \<and> trim (Comment c) = Comment c \<and> 1 \<le> Page c) \<and>
   sorted (map Page (comments (handleFileSelect parse pdf st))) \<and>
   (\<forall>k<length pdf. error (handleFileSelect parse pdf st) = None \<longrightarrow>
      filter (\<lambda>c. Page c = 1 + int k) (comments (handleFileSelect parse pdf st))
        = page_entries parse (1 + int k) (pdf ! k))"
proof (intro conjI ballI allI impI)
  fix c assume "c \<in> set (comments (handleFileSelect parse pdf st))"
  then have m: "c \<in> set (doc_entries parse 1 pdf)" using handleFileSelect_subset by blast
  from doc_entries_mem [OF m] obtain k a where
    p: "process_annotation parse (1 + int k) a = Inr (Some c)" by auto
  show "Comment c \<noteq> []" using p by (rule process_Some(3))
  show "trim (Comment c) = Comment c" using p by (rule process_Some(4))
  show "1 \<le> Page c" using m by (rule doc_entries_Page)
next
  show "sorted (map Page (comments (handleFileSelect parse pdf st)))"
    by (cases "pages_loop parse 1 pdf []")
       (auto simp: handleFileSelect_comments doc_entries_sorted dest: pages_loop_Inr)
next
  fix k assume "k < length pdf" "error (handleFileSelect parse pdf st) = None"
  then show "filter (\<lambda>c. Page c = 1 + int k) (comments (handleFileSelect parse pdf st))
        = page_entries parse (1 + int k) (pdf ! k)"
    by (simp add: handleFileSelect_doc_entries doc_entries_page)
qed

text \<open>
  The two-page document yields its two entries, one per page.
\<close>
theorem extraction_invariants_witness:
  "comments (handleFileSelect parse_unrecognised demo_pdf st0) = demo_entries \<and>
   error (handleFileSelect parse_unrecognised demo_pdf st0) = None \<and>
   sorted (map Page demo_entries) \<and>
   filter (\<lambda>c. Page c = 2) demo_entries = page_entries parse_unrecognised 2 (demo_pdf ! 1) \<and>
   Comment (demo_entries ! 1) \<noteq> [] \<and>
   trim (Comment (demo_entries ! 1)) = Comment (demo_entries ! 1) \<and>
   1 \<le> Page (demo_entries ! 1)"
proof -
  have c: "comments (handleFileSelect parse_unrecognised demo_pdf st0) = demo_entries"
    by (simp add: handleFileSelect_comments demo_pdf_entries)
  have e: "error (handleFileSelect parse_unrecognised demo_pdf st0) = None"
    by (simp add: handleFileSelect_error demo_pdf_entries)
  have l: "1 < length demo_pdf" by (simp add: demo_pdf_def)
  have m: "demo_entries ! 1 \<in> set (comments (handleFileSelect parse_unrecognised demo_pdf st0))"
    unfolding c by (simp add: demo_entries_def)
  from extraction_invariants [of parse_unrecognised demo_pdf st0] e l
  have 1: "sorted (map Page (comments (handleFileSelect parse_unrecognised demo_pdf st0))) \<and>
    filter (\<lambda>c. Page c = 1 + int 1) (comments (handleFileSelect parse_unrecognised demo_pdf st0))
        = page_entries parse_unrecognised (1 + int 1) (demo_pdf ! 1)"
    by blast
  from extraction_invariants [of parse_unrecognised demo_pdf st0] m
  have 2: "Comment (demo_entries ! 1) \<noteq> [] \<and>
    trim (Comment (demo_entries ! 1)) = Comment (demo_entries ! 1) \<and> 1 \<le> Page (demo_entries ! 1)"
    by blast
  from 1 2 c e show ?thesis by simp
qed

section \<open>The fallback chains\<close>

lemma string_of_nat_nonempty: "string_of_nat n \<noteq> []"
  by (subst string_of_nat.simps) simp


lemma js_prop_falsy: "\<not> truthy v \<Longrightarrow> js_prop v k = JUndefined"
  by (cases v) simp_all

lemma js_prop_string: "is_string v \<Longrightarrow> js_prop v k = JUndefined"
  by (cases v) simp_all



lemma is_string_not_object: "is_string v \<Longrightarrow> \<not> typeof_object v \<and> \<not> isArray v"
  by (cases v) simp_all





lemmas chain_eval = annot_contents_def annot_author_def spec_contents_sources_def
  spec_author_sources_def field_def object_shaped_def JSON_stringify_def Let_def



text \<open>
  C7, as amended. The author of the entry pushed for an annotation is the value of the
  variable \<open>author\<close>. It is the first of the six sources that is set and not empty, and
  the empty string when there is none, except in one case: when no title source yields
  anything and the raw author-title tag \<open>T\<close> is set but is not a string and has no
  non-empty string sub-field, the author is the empty string and the fields user, author
  and userName are not consulted.
\<close>
theorem author_chain:
  "(\<not> truthy (field a ''T'') \<or> is_string (field a ''T'') \<or> truthy (js_prop (field a ''T'') ''str'') \<or>
    truthy (js_prop (field a ''titleObj'') ''str'') \<or> truthy (field a ''title'') \<longrightarrow>
      annot_author a = first_truthy (spec_author_sources a)) \<and>
   (\<not> truthy (js_prop (field a ''titleObj'') ''str'') \<and> \<not> truthy (field a ''title'') \<and>
    truthy (field a ''T'') \<and> \<not> is_string (field a ''T'') \<and>
    \<not> truthy (js_prop (field a ''T'') ''str'') \<longrightarrow>
      annot_author a = JStr []) \<and>
   (process_annotation parse n a = Inr (Some c) \<longrightarrow> Author c = annot_author a)"
proof -
  have o: "truthy (js_prop (field a ''titleObj'') ''str'') \<Longrightarrow> truthy (field a ''titleObj'')"
    by (cases "truthy (field a ''titleObj'')") (simp_all add: js_prop_falsy)
  have f: "\<not> truthy (field a ''T'') \<Longrightarrow> \<not> truthy (js_prop (field a ''T'') ''str'')"
    by (simp add: js_prop_falsy)
  have 1: "(\<not> truthy (field a ''T'') \<or> is_string (field a ''T'') \<or> truthy (js_prop (field a ''T'') ''str'') \<or>
    truthy (js_prop (field a ''titleObj'') ''str'') \<or> truthy (field a ''title'') \<longrightarrow>
      annot_author a = first_truthy (spec_author_sources a)) \<and>
   (\<not> truthy (js_prop (field a ''titleObj'') ''str'') \<and> \<not> truthy (field a ''title'') \<and>
    truthy (field a ''T'') \<and> \<not> is_string (field a ''T'') \<and>
    \<not> truthy (js_prop (field a ''T'') ''str'') \<longrightarrow>
      annot_author a = JStr [])"
    using o f by (auto simp: annot_author_def spec_author_sources_def js_or_def)
  have 2: "process_annotation parse n a = Inr (Some c) \<longrightarrow> Author c = annot_author a"
    using process_Some(5) by blast
  from 1 2 show ?thesis by blast
qed

text \<open>
  An annotation whose tag \<open>T\<close> is a string.
\<close>
theorem author_chain_witness:
  "annot_author string_T_then_user = first_truthy (spec_author_sources string_T_then_user) \<and>
   annot_author string_T_then_user = JStr ''Al'' \<and>
   annot_author object_T_then_user = JStr [] \<and>
   Author \<lparr>Page = 3, Author = JStr ''Al'', Comment = ''x'', Modified = []\<rparr>
     = annot_author string_T_then_user"
proof -
  have "is_string (field string_T_then_user ''T'')"
    by (simp add: string_T_then_user_def field_def)
  with author_chain [of string_T_then_user]
  have 1: "annot_author string_T_then_user = first_truthy (spec_author_sources string_T_then_user)"
    by blast
  have 2: "annot_author string_T_then_user = JStr ''Al''"
    by (simp add: string_T_then_user_def chain_eval)
  have h: "\<not> truthy (js_prop (field object_T_then_user ''titleObj'') ''str'') \<and>
      \<not> truthy (field object_T_then_user ''title'') \<and> truthy (field object_T_then_user ''T'') \<and>
      \<not> is_string (field object_T_then_user ''T'') \<and>
      \<not> truthy (js_prop (field object_T_then_user ''T'') ''str'')"
    by (simp add: object_T_then_user_def field_def)
  from author_chain [of object_T_then_user] h
  have 3: "annot_author object_T_then_user = JStr []" by blast
  have p: "process_annotation parse_unrecognised 3 string_T_then_user =
      Inr (Some \<lparr>Page = 3, Author = JStr ''Al'', Comment = ''x'', Modified = []\<rparr>)"
    by (simp add: string_T_then_user_def annot_eval)
  from author_chain [where a = string_T_then_user and parse = parse_unrecognised and n = 3
      and c = "\<lparr>Page = 3, Author = JStr ''Al'', Comment = ''x'', Modified = []\<rparr>"] p
  have 4: "Author \<lparr>Page = 3, Author = JStr ''Al'', Comment = ''x'', Modified = []\<rparr>
     = annot_author string_T_then_user" by blast
  from 1 2 3 4 show ?thesis by blast
qed

text \<open>
  C7 as stated fails: with an object without string sub-field as tag \<open>T\<close> and the user
  \<open>Bob\<close>, the first non-empty source is \<open>Bob\<close>, but the author extracted is the empty
  string.
\<close>
theorem author_chain_counterexample:
  "first_truthy (spec_author_sources object_T_then_user) = JStr ''Bob'' \<and>
   annot_author object_T_then_user = JStr [] \<and>
   process_annotation parse_unrecognised 1 object_T_then_user =
     Inr (Some \<lparr>Page = 1, Author = JStr [], Comment = ''x'', Modified = []\<rparr>)"
  by (simp add: object_T_then_user_def chain_eval process_annotation_def
      annot_subtype_def annot_mod_def js_or_def formatDate_def trim_def is_ws_def)

section \<open>The export formats\<close>

lemma double_quotes_concat:
  "double_quotes v = concat (map (\<lambda>ch. if ch = DQ then [DQ, DQ] else [ch]) v)"
  by (induction v) simp_all

lemma escapeCSVField_Comment: "v \<noteq> [] \<Longrightarrow> escapeCSVField v ''Comment'' = csv_quoted v"
  by (simp add: escapeCSVField_def csv_quoted_def double_quotes_concat)

lemma escapeCSVField_other:
  "f \<noteq> ''Comment'' \<Longrightarrow> escapeCSVField v f = (if needs_quotes v then csv_quoted v else v)"
  by (auto simp: escapeCSVField_def csv_quoted_def double_quotes_concat needs_quotes_def)

lemma extracted_Comment_nonempty:
  assumes "c \<in> set (comments (handleFileSelect parse pdf st))"
  shows "Comment c \<noteq> []"
proof -
  from assms have "c \<in> set (doc_entries parse 1 pdf)" using handleFileSelect_subset by blast
  from doc_entries_mem [OF this] obtain k a where
    "process_annotation parse (1 + int k) a = Inr (Some c)" by auto
  then show ?thesis by (rule process_Some(3))
qed

lemma needs_quotes_append: "needs_quotes (u @ v) = (needs_quotes u \<or> needs_quotes v)"
  by (auto simp: needs_quotes_def)

lemma digit_char_plain: "d < 10 \<Longrightarrow> \<not> needs_quotes [digit_char d]"
proof -
  assume "d < 10"
  then have "of_char (digit_char d) = 48 + d" by (simp add: digit_char_def)
  then have "digit_char d \<noteq> CHR '',''" "digit_char d \<noteq> DQ" "digit_char d \<noteq> LF" "digit_char d \<noteq> CR"
    by auto
  then show "\<not> needs_quotes [digit_char d]" by (simp add: needs_quotes_def)
qed

lemma string_of_nat_plain: "\<not> needs_quotes (string_of_nat n)"
proof (induction n rule: string_of_nat.induct)
  case (1 n)
  show ?case
  proof (cases "n < 10")
    case True
    then show ?thesis by (simp add: string_of_nat_digit digit_char_plain)
  next
    case False
    then have "string_of_nat n = string_of_nat (n div 10) @ [digit_char (n mod 10)]"
      by (subst string_of_nat.simps) simp
    with 1 False show ?thesis by (simp add: needs_quotes_append digit_char_plain)
  qed
qed

lemma string_of_int_plain: "\<not> needs_quotes (string_of_int i)"
proof (cases "i < 0")
  case True
  have "\<not> needs_quotes ''-''" by (simp add: needs_quotes_def)
  with True show ?thesis
    using needs_quotes_append [of "''-''" "string_of_nat (nat (- i))"]
    by (simp add: string_of_int_def string_of_nat_plain)
next
  case False
  then show ?thesis by (simp add: string_of_int_def string_of_nat_plain)
qed

lemma string_of_int_nonempty: "string_of_int i \<noteq> []"
  by (simp add: string_of_int_def string_of_nat_nonempty)

lemma needs_quotes_Nil: "\<not> needs_quotes []"
  by (simp add: needs_quotes_def)

lemma escapeCSVField_Page: "escapeCSVField (field_text c ''Page'') ''Page'' = string_of_int (Page c)"
  by (simp add: escapeCSVField_other field_text_def string_of_int_plain)

lemma field_text_spec:
  "f \<in> {''Page'', ''Author'', ''Modified'', ''Comment''} \<Longrightarrow> field_text c f = spec_field_value c f"
  by (cases "Author c") (auto simp: field_text_def spec_field_value_def)

lemma csv_cell_spec:
  assumes "f \<in> {''Page'', ''Author'', ''Modified'', ''Comment''}" and "Comment c \<noteq> []"
  shows "escapeCSVField (field_text c f) f = spec_csv_cell c f"
proof (cases "f = ''Comment''")
  case True
  with assms(2) show ?thesis
    by (simp add: field_text_def escapeCSVField_Comment spec_csv_cell_def)
next
  case False
  from assms(1) have "field_text c f = spec_field_value c f" by (rule field_text_spec)
  with False show ?thesis
    by (simp add: escapeCSVField_other spec_csv_cell_def)
qed

lemma selectedComments_subset: "set (selectedComments cs rows) \<subseteq> set cs"
  by (auto simp: selectedComments_eq)

lemma saveCSV_spec:
  assumes "selectedFields cv \<noteq> []"
    and "set (selectedFields cv) \<subseteq> {''Page'', ''Author'', ''Modified'', ''Comment''}"
    and "\<forall>c\<in>set cs. Comment c \<noteq> []"
  shows "saveCSV cs rows cv =
        Some (str_join [LF]
          (str_join '','' (selectedFields cv) #
           map (\<lambda>c. str_join '','' (map (spec_csv_cell c) (selectedFields cv)))
             (selectedComments cs rows)))"
proof -
  have eq: "map (\<lambda>c. str_join '','' (map (\<lambda>f. escapeCSVField (field_text c f) f) (selectedFields cv)))
             (selectedComments cs rows) =
        map (\<lambda>c. str_join '','' (map (spec_csv_cell c) (selectedFields cv)))
             (selectedComments cs rows)"
  proof (rule map_cong [OF refl])
    fix c assume "c \<in> set (selectedComments cs rows)"
    with assms(3) selectedComments_subset have ne: "Comment c \<noteq> []" by blast
    have "map (\<lambda>f. escapeCSVField (field_text c f) f) (selectedFields cv) =
          map (\<lambda>f. spec_csv_cell c f) (selectedFields cv)"
    proof (rule map_cong [OF refl])
      fix f assume "f \<in> set (selectedFields cv)"
      with assms(2) have "f \<in> {''Page'', ''Author'', ''Modified'', ''Comment''}" by blast
      then show "escapeCSVField (field_text c f) f = spec_csv_cell c f"
        using ne by (rule csv_cell_spec)
    qed
    then show "str_join '','' (map (\<lambda>f. escapeCSVField (field_text c f) f) (selectedFields cv)) =
        str_join '','' (map (spec_csv_cell c) (selectedFields cv))"
      by (simp only:)
  qed
  from assms(1) have "saveCSV cs rows cv =
        Some (str_join [LF]
          (str_join '','' (selectedFields cv) #
           map (\<lambda>c. str_join '','' (map (\<lambda>f. escapeCSVField (field_text c f) f) (selectedFields cv)))
             (selectedComments cs rows)))"
    by (simp add: saveCSV_def Let_def)
  then show ?thesis by (simp only: eq)
qed


text \<open>
  C8. In a row of the CSV text the comment of an entry is always wrapped in double quotes,
  its double quotes doubled; the comment of an entry is never empty, which holds of every
  extracted entry. Every other field is wrapped in the same way exactly when its value
  contains a comma, a double quote, a line feed or a carriage return, and stands as it is
  otherwise: the cell of the page is the page number in decimal digits, never quoted; the
  cell of the modification date and the cell of the author are the date and the author of
  the entry, quoted when they need it. The rows are the enabled fields of each selected
  entry joined by commas, under the row of field names, each cell as the specification
  words it.
\<close>
theorem csv_escaping:
  "(Comment c \<noteq> [] \<longrightarrow>
      escapeCSVField (field_text c ''Comment'') ''Comment'' = csv_quoted (Comment c)) \<and>
   (c \<in> set (comments (handleFileSelect parse pdf st)) \<longrightarrow>
      escapeCSVField (field_text c ''Comment'') ''Comment'' = csv_quoted (Comment c)) \<and>
   (f \<noteq> ''Comment'' \<longrightarrow>
      escapeCSVField (field_text c f) f =
        (if needs_quotes (field_text c f) then csv_quoted (field_text c f) else field_text c f)) \<and>
   escapeCSVField (field_text c ''Page'') ''Page'' = string_of_int (Page c) \<and>
   escapeCSVField (field_text c ''Modified'') ''Modified'' =
     (if needs_quotes (Modified c) then csv_quoted (Modified c) else Modified c) \<and>
   (Author c = JStr a \<longrightarrow>
      escapeCSVField (field_text c ''Author'') ''Author'' =
        (if needs_quotes a then csv_quoted a else a)) \<and>
   (f \<in> {''Page'', ''Author'', ''Modified'', ''Comment''} \<and> Comment c \<noteq> [] \<longrightarrow>
      escapeCSVField (field_text c f) f = spec_csv_cell c f) \<and>
   (selectedFields cv \<noteq> [] \<longrightarrow>
      saveCSV cs rows cv =
        Some (str_join [LF]
          (str_join '','' (selectedFields cv) #
           map (\<lambda>c. str_join '','' (map (\<lambda>f. escapeCSVField (field_text c f) f) (selectedFields cv)))
             (selectedComments cs rows)))) \<and>
   (selectedFields cv \<noteq> [] \<and>
    set (selectedFields cv) \<subseteq> {''Page'', ''Author'', ''Modified'', ''Comment''} \<and>
    (\<forall>c\<in>set cs. Comment c \<noteq> []) \<longrightarrow>
      saveCSV cs rows cv =
        Some (str_join [LF]
          (str_join '','' (selectedFields cv) #
           map (\<lambda>c. str_join '','' (map (spec_csv_cell c) (selectedFields cv)))
             (selectedComments cs rows))))"
proof (intro conjI impI)
  assume "Comment c \<noteq> []"
  then show "escapeCSVField (field_text c ''Comment'') ''Comment'' = csv_quoted (Comment c)"
    by (simp add: field_text_def escapeCSVField_Comment)
next
  assume "c \<in> set (comments (handleFileSelect parse pdf st))"
  then have "Comment c \<noteq> []" by (rule extracted_Comment_nonempty)
  then show "escapeCSVField (field_text c ''Comment'') ''Comment'' = csv_quoted (Comment c)"
    by (simp add: field_text_def escapeCSVField_Comment)
next
  assume "f \<noteq> ''Comment''"
  then show "escapeCSVField (field_text c f) f =
        (if needs_quotes (field_text c f) then csv_quoted (field_text c f) else field_text c f)"
    by (rule escapeCSVField_other)
next
  show "escapeCSVField (field_text c ''Page'') ''Page'' = string_of_int (Page c)"
    by (rule escapeCSVField_Page)
next
  show "escapeCSVField (field_text c ''Modified'') ''Modified'' =
     (if needs_quotes (Modified c) then csv_quoted (Modified c) else Modified c)"
    by (simp add: escapeCSVField_other field_text_def)
next
  assume "Author c = JStr a"
  then show "escapeCSVField (field_text c ''Author'') ''Author'' =
        (if needs_quotes a then csv_quoted a else a)"
    by (simp add: escapeCSVField_other field_text_def)
next
  assume "f \<in> {''Page'', ''Author'', ''Modified'', ''Comment''} \<and> Comment c \<noteq> []"
  then show "escapeCSVField (field_text c f) f = spec_csv_cell c f"
    using csv_cell_spec by blast
next
  assume "selectedFields cv \<noteq> []"
  then show "saveCSV cs rows cv =
        Some (str_join [LF]
          (str_join '','' (selectedFields cv) #
           map (\<lambda>c. str_join '','' (map (\<lambda>f. escapeCSVField (field_text c f) f) (selectedFields cv)))
             (selectedComments cs rows)))"
    by (simp add: saveCSV_def Let_def)
next
  assume "selectedFields cv \<noteq> [] \<and>
    set (selectedFields cv) \<subseteq> {''Page'', ''Author'', ''Modified'', ''Comment''} \<and>
    (\<forall>c\<in>set cs. Comment c \<noteq> [])"
  then show "saveCSV cs rows cv =
        Some (str_join [LF]
          (str_join '','' (selectedFields cv) #
           map (\<lambda>c. str_join '','' (map (spec_csv_cell c) (selectedFields cv)))
             (selectedComments cs rows)))"
    using saveCSV_spec by blast
qed

lemma selectedFields_page_author_comment:
  "selectedFields page_author_comment = [''Page'', ''Author'', ''Comment'']"
  by (simp add: selectedFields_def page_author_comment_def)

lemma selectedFields_all_columns_on:
  "selectedFields all_columns_on = [''Page'', ''Author'', ''Modified'', ''Comment'']"
  by (simp add: selectedFields_def all_columns_on_def)

text \<open>
  An entry with a comma in the author and double quotes in the comment, and an entry with
  a modification date, all four columns enabled; and the first comment of the example
  document.
\<close>
theorem csv_escaping_witness:
  "saveCSV [quoted_entry, dated_entry] [] all_columns_on =
     Some (''Page,Author,Modified,Comment'' @ [LF] @
           ''7,'' @ [DQ] @ ''Doe, J'' @ [DQ] @ '',,'' @
             [DQ] @ ''say '' @ [DQ, DQ] @ ''hi'' @ [DQ, DQ] @ [DQ] @ [LF] @
           ''3,Ann,2024-01-15T10:30:00.000Z,'' @ [DQ] @ ''a, b'' @ [DQ]) \<and>
   escapeCSVField (field_text quoted_entry ''Page'') ''Page'' = ''7'' \<and>
   escapeCSVField (field_text quoted_entry ''Author'') ''Author'' = [DQ] @ ''Doe, J'' @ [DQ] \<and>
   escapeCSVField (field_text dated_entry ''Modified'') ''Modified'' = ''2024-01-15T10:30:00.000Z'' \<and>
   escapeCSVField (field_text (demo_entries ! 0) ''Comment'') ''Comment'' =
     [DQ] @ ''Looks good'' @ [DQ]"
proof -
  have n: "selectedFields all_columns_on \<noteq> []"
    by (simp add: selectedFields_all_columns_on)
  have sub: "set (selectedFields all_columns_on) \<subseteq> {''Page'', ''Author'', ''Modified'', ''Comment''}"
    by (simp add: selectedFields_all_columns_on)
  have ne: "\<forall>c\<in>set [quoted_entry, dated_entry]. Comment c \<noteq> []"
    by (simp add: quoted_entry_def dated_entry_def)
  have 1: "Comment quoted_entry \<noteq> []" by (simp add: quoted_entry_def)
  have 2: "''Author'' \<noteq> ''Comment''" by simp
  have 3: "''Author'' \<in> {''Page'', ''Author'', ''Modified'', ''Comment''}" by simp
  have au: "Author quoted_entry = JStr ''Doe, J''" by (simp add: quoted_entry_def)
  from csv_escaping [where c = quoted_entry and f = "''Author''" and cv = all_columns_on
      and cs = "[quoted_entry, dated_entry]" and rows = "[]" and a = "''Doe, J''"] n sub ne 1 2 3 au
  have c: "escapeCSVField (field_text quoted_entry ''Comment'') ''Comment'' = csv_quoted (Comment quoted_entry)"
    and o: "escapeCSVField (field_text quoted_entry ''Author'') ''Author'' =
        (if needs_quotes (field_text quoted_entry ''Author'') then csv_quoted (field_text quoted_entry ''Author'')
         else field_text quoted_entry ''Author'')"
    and p: "escapeCSVField (field_text quoted_entry ''Page'') ''Page'' = string_of_int (Page quoted_entry)"
    and a: "escapeCSVField (field_text quoted_entry ''Author'') ''Author'' =
        (if needs_quotes ''Doe, J'' then csv_quoted ''Doe, J'' else ''Doe, J'')"
    and g: "escapeCSVField (field_text quoted_entry ''Author'') ''Author'' = spec_csv_cell quoted_entry ''Author''"
    and s: "saveCSV [quoted_entry, dated_entry] [] all_columns_on =
        Some (str_join [LF]
          (str_join '','' (selectedFields all_columns_on) #
           map (\<lambda>c. str_join '','' (map (\<lambda>f. escapeCSVField (field_text c f) f) (selectedFields all_columns_on)))
             (selectedComments [quoted_entry, dated_entry] [])))"
    and t: "saveCSV [quoted_entry, dated_entry] [] all_columns_on =
        Some (str_join [LF]
          (str_join '','' (selectedFields all_columns_on) #
           map (\<lambda>c. str_join '','' (map (spec_csv_cell c) (selectedFields all_columns_on)))
             (selectedComments [quoted_entry, dated_entry] [])))"
    by blast+
  from csv_escaping [where c = dated_entry]
  have m: "escapeCSVField (field_text dated_entry ''Modified'') ''Modified'' =
     (if needs_quotes (Modified dated_entry) then csv_quoted (Modified dated_entry)
      else Modified dated_entry)"
    by blast
  have A: "saveCSV [quoted_entry, dated_entry] [] all_columns_on =
     Some (''Page,Author,Modified,Comment'' @ [LF] @
           ''7,'' @ [DQ] @ ''Doe, J'' @ [DQ] @ '',,'' @
             [DQ] @ ''say '' @ [DQ, DQ] @ ''hi'' @ [DQ, DQ] @ [DQ] @ [LF] @
           ''3,Ann,2024-01-15T10:30:00.000Z,'' @ [DQ] @ ''a, b'' @ [DQ])"
    unfolding t selectedFields_all_columns_on
    by (simp add: selectedComments_def spec_csv_cell_def spec_field_value_def
          quoted_entry_def dated_entry_def needs_quotes_def csv_quoted_def
          string_of_int_def string_of_nat_digit char_eval)
  have P: "escapeCSVField (field_text quoted_entry ''Page'') ''Page'' = ''7''"
    unfolding p by (simp add: quoted_entry_def string_of_int_def string_of_nat_digit char_eval)
  have Au: "escapeCSVField (field_text quoted_entry ''Author'') ''Author'' = [DQ] @ ''Doe, J'' @ [DQ]"
    unfolding a by (simp add: needs_quotes_def csv_quoted_def)
  have M: "escapeCSVField (field_text dated_entry ''Modified'') ''Modified'' = ''2024-01-15T10:30:00.000Z''"
    unfolding m by (simp add: dated_entry_def needs_quotes_def)
  have e: "demo_entries ! 0 \<in> set (comments (handleFileSelect parse_unrecognised demo_pdf st0))"
    by (simp add: handleFileSelect_comments demo_pdf_entries) (simp add: demo_entries_def)
  from csv_escaping [where c = "demo_entries ! 0" and parse = parse_unrecognised
      and pdf = demo_pdf and st = st0] e
  have "escapeCSVField (field_text (demo_entries ! 0) ''Comment'') ''Comment'' =
      csv_quoted (Comment (demo_entries ! 0))" by blast
  then have B: "escapeCSVField (field_text (demo_entries ! 0) ''Comment'') ''Comment'' =
     [DQ] @ ''Looks good'' @ [DQ]"
    by (simp add: demo_entries_def csv_quoted_def)
  from A P Au M B show ?thesis by blast
qed

lemma text_line_spec: "text_line flds c = spec_line flds c"
  by (simp add: text_line_def spec_line_def spec_prefix_def Let_def)

text \<open>
  C9, as amended. With at least one field enabled, the text export is the lines of the
  selected entries joined by two line feeds, the line of an entry being its prefix, a
  hyphen between spaces and its comment when the comment is enabled and the prefix is not
  empty, the comment alone when the prefix is empty, and the prefix alone when the comment
  is disabled. With no field enabled the text export is empty.
\<close>
theorem text_export:
  "(selectedFields cv \<noteq> [] \<longrightarrow>
      formatTextContent cs rows cv =
        str_join [LF, LF] (map (spec_line (selectedFields cv)) (selectedComments cs rows))) \<and>
   (selectedFields cv = [] \<longrightarrow> formatTextContent cs rows cv = [])"
proof -
  have "text_line (selectedFields cv) = spec_line (selectedFields cv)"
    by (rule ext) (rule text_line_spec)
  then show ?thesis by (simp add: formatTextContent_def Let_def)
qed

text \<open>
  The two entries of the example document with page, author and comment enabled.
\<close>
theorem text_export_witness:
  "formatTextContent demo_entries [] page_author_comment =
     ''P1, Alice - Looks good'' @ [LF, LF] @ ''P2 - Fix this'' \<and>
   formatTextContent demo_entries [] all_columns_off = []"
proof -
  have n: "selectedFields page_author_comment \<noteq> []"
    by (simp add: selectedFields_page_author_comment)
  from text_export [of page_author_comment demo_entries "[]"] n
  have "formatTextContent demo_entries [] page_author_comment =
        str_join [LF, LF] (map (spec_line (selectedFields page_author_comment)) (selectedComments demo_entries []))"
    by blast
  then have 1: "formatTextContent demo_entries [] page_author_comment =
     ''P1, Alice - Looks good'' @ [LF, LF] @ ''P2 - Fix this''"
    by (simp add: selectedFields_page_author_comment selectedComments_def demo_entries_def
        spec_line_def spec_prefix_def string_of_int_def string_of_nat_digit char_eval)
  have e: "selectedFields all_columns_off = []"
    by (simp add: selectedFields_def all_columns_off_def)
  from text_export [of all_columns_off demo_entries "[]"] e
  have 2: "formatTextContent demo_entries [] all_columns_off = []" by blast
  from 1 2 show ?thesis by blast
qed

text \<open>
  C9 as stated fails when no field is enabled: the lines of two entries are then two empty
  prefixes, which joined by two line feeds are two line feeds, but the export is empty.
\<close>
theorem text_export_counterexample:
  "selectedFields all_columns_off = [] \<and>
   formatTextContent demo_entries [] all_columns_off = [] \<and>
   str_join [LF, LF] (map (spec_line (selectedFields all_columns_off)) (selectedComments demo_entries []))
     = [LF, LF]"
  by (simp add: selectedFields_def all_columns_off_def formatTextContent_def selectedComments_def
      demo_entries_def spec_line_def spec_prefix_def)

section \<open>The normalisation of dates\<close>

lemma div_step:
  fixes x k :: int
  assumes "0 < k"
  shows "(x + 1) div k = x div k + (if (x + 1) mod k = 0 then 1 else 0)"
proof -
  define q where "q = x div k"
  define r where "r = x mod k"
  have x: "x = k * q + r" unfolding q_def r_def by simp
  have b: "0 \<le> r" "r < k" unfolding r_def using assms by simp_all
  show ?thesis
  proof (cases "r + 1 = k")
    case True
    have "x + 1 = k * q + (r + 1)" unfolding x by simp
    also have "\<dots> = k * (q + 1)" unfolding True by (simp add: algebra_simps)
    finally have e: "x + 1 = k * (q + 1)" .
    have "(x + 1) div k = q + 1" unfolding e using assms by simp
    moreover have "(x + 1) mod k = 0" unfolding e by simp
    ultimately show ?thesis unfolding q_def by simp
  next
    case False
    have e: "x + 1 = k * q + (r + 1)" unfolding x by simp
    have r1: "0 \<le> r + 1" "r + 1 < k" using b False by simp_all
    have "(x + 1) div k = q" using e r1 by (rule int_div_pos_eq)
    moreover have "(x + 1) mod k = r + 1" using e r1 by (rule int_mod_pos_eq)
    ultimately show ?thesis unfolding q_def using b by simp
  qed
qed

lemma mod_shift:
  fixes y c k :: int
  assumes "k dvd c"
  shows "((y - c) mod k = 0) = (y mod k = 0)"
proof -
  have "k dvd (y - c) \<longleftrightarrow> k dvd y"
    using assms by (simp add: dvd_diff_left_iff)
  then show ?thesis by (simp add: mod_eq_0_iff_dvd)
qed

lemma DayFromYear_Suc: "DayFromYear (y + 1) = DayFromYear y + DaysInYear y"
proof -
  have m4: "(y - 1969 + 1) mod 4 = 0 \<longleftrightarrow> y mod 4 = 0"
    using mod_shift[of 4 1968 y] by simp
  have m100: "(y - 1901 + 1) mod 100 = 0 \<longleftrightarrow> y mod 100 = 0"
    using mod_shift[of 100 1900 y] by simp
  have m400: "(y - 1601 + 1) mod 400 = 0 \<longleftrightarrow> y mod 400 = 0"
    using mod_shift[of 400 1600 y] by simp
  have c1: "y mod 100 = 0 \<Longrightarrow> y mod 4 = 0"
    using mod_mod_cancel[of 4 100 y] by simp
  have c2: "y mod 400 = 0 \<Longrightarrow> y mod 100 = 0"
    using mod_mod_cancel[of 100 400 y] by simp
  have s4: "(y + 1 - 1969) div 4 = (y - 1969) div 4 + (if y mod 4 = 0 then 1 else 0)"
    using div_step[of 4 "y - 1969"] m4 by (simp add: algebra_simps)
  have s100: "(y + 1 - 1901) div 100 = (y - 1901) div 100 + (if y mod 100 = 0 then 1 else 0)"
    using div_step[of 100 "y - 1901"] m100 by (simp add: algebra_simps)
  have s400: "(y + 1 - 1601) div 400 = (y - 1601) div 400 + (if y mod 400 = 0 then 1 else 0)"
    using div_step[of 400 "y - 1601"] m400 by (simp add: algebra_simps)
  define i4 :: int where "i4 = (if y mod 4 = 0 then 1 else 0)"
  define i100 :: int where "i100 = (if y mod 100 = 0 then 1 else 0)"
  define i400 :: int where "i400 = (if y mod 400 = 0 then 1 else 0)"
  have diy: "DaysInYear y = 365 + i4 - i100 + i400"
  proof (cases "y mod 4 = 0")
    case False
    with c1 c2 show ?thesis by (auto simp: DaysInYear_def i4_def i100_def i400_def)
  next
    case t4: True
    show ?thesis
    proof (cases "y mod 100 = 0")
      case False
      with t4 c2 show ?thesis by (auto simp: DaysInYear_def i4_def i100_def i400_def)
    next
      case True
      with t4 show ?thesis by (simp add: DaysInYear_def i4_def i100_def i400_def)
    qed
  qed
  have gen: "365 * (y + 1 - 1970) + (A + i4) - (B + i100) + (C + i400)
      = 365 * (y - 1970) + A - B + C + (365 + i4 - i100 + i400)" for A B C :: int
    by (simp add: algebra_simps)
  show ?thesis
    unfolding DayFromYear_def s4 s100 s400 diy
    unfolding i4_def [symmetric] i100_def [symmetric] i400_def [symmetric]
    by (rule gen)
qed

lemma DaysInYear_cases: "DaysInYear y = 365 \<or> DaysInYear y = 366"
  by (simp add: DaysInYear_def)

lemma DayFromYear_1970: "DayFromYear 1970 = 0"
  by (simp add: DayFromYear_def)

lemma DayFromYear_lower: "1970 \<le> y \<Longrightarrow> 365 * (y - 1970) \<le> DayFromYear y \<and> DayFromYear y \<le> 366 * (y - 1970)"
proof (induction y rule: int_ge_induct)
  case base
  show ?case by (simp add: DayFromYear_1970)
next
  case (step i)
  show ?case using step.IH DaysInYear_cases [of i] by (auto simp: DayFromYear_Suc)
qed

lemma DayFromYear_upper: "y \<le> 1970 \<Longrightarrow> 366 * (y - 1970) \<le> DayFromYear y \<and> DayFromYear y \<le> 365 * (y - 1970)"
proof (induction y rule: int_le_induct)
  case base
  show ?case by (simp add: DayFromYear_1970)
next
  case (step i)
  have "DayFromYear i = DayFromYear (i - 1) + DaysInYear (i - 1)"
    using DayFromYear_Suc [of "i - 1"] by simp
  then show ?case using step.IH DaysInYear_cases [of "i - 1"] by auto
qed

lemma DayFromYear_mono: "y < y' \<Longrightarrow> DayFromYear y < DayFromYear y'"
proof (induction y' rule: int_gr_induct)
  case base
  show ?case using DaysInYear_cases [of y] by (auto simp: DayFromYear_Suc)
next
  case (step i)
  show ?case using step.IH DaysInYear_cases [of i] by (auto simp: DayFromYear_Suc)
qed

lemma year_down_correct:
  "y \<le> y0 \<Longrightarrow> DayFromYear y \<le> d \<Longrightarrow> d < DayFromYear (y + 1) \<Longrightarrow> year_down y0 d = y"
proof (induction "nat (y0 - y)" arbitrary: y0)
  case 0
  then have "y0 = y" by simp
  with 0 show ?case by (simp add: year_down.simps)
next
  case (Suc n)
  then have g: "y < y0" by linarith
  then have "y + 1 \<le> y0" by simp
  then have "DayFromYear (y + 1) \<le> DayFromYear y0"
    using DayFromYear_mono [of "y + 1" y0] by (cases "y + 1 = y0") auto
  with Suc.prems have n: "\<not> DayFromYear y0 \<le> d" by linarith
  have "year_down (y0 - 1) d = y"
    using Suc.hyps(2) g Suc.prems by (intro Suc.hyps(1)) auto
  with n show ?case by (subst year_down.simps) simp
qed

lemma year_estimate:
  assumes "DayFromYear y \<le> d"
  shows "y \<le> 1970 + (if 0 \<le> d then d div 365 else d div 366)"
proof (cases "1970 \<le> y")
  case True
  then have "365 * (y - 1970) \<le> d" using DayFromYear_lower [of y] assms by linarith
  moreover from this True have "0 \<le> d" by simp
  ultimately show ?thesis
    by (simp add: zdiv_mono1 [of "365 * (y - 1970)" d 365, simplified])
next
  case False
  show ?thesis
  proof (cases "0 \<le> d")
    case True
    then have "0 \<le> d div 365" by (simp add: pos_imp_zdiv_nonneg_iff)
    with True False show ?thesis by simp
  next
    case d: False
    from False have "366 * (y - 1970) \<le> d" using DayFromYear_upper [of y] assms by linarith
    then have "y - 1970 \<le> d div 366"
      using zdiv_mono1 [of "366 * (y - 1970)" d 366] by simp
    with d show ?thesis by simp
  qed
qed

lemma YearFromDay_eq:
  "DayFromYear y \<le> d \<Longrightarrow> d < DayFromYear (y + 1) \<Longrightarrow> YearFromDay d = y"
  unfolding YearFromDay_def by (rule year_down_correct [OF year_estimate])


lemma Day_eq:
  assumes "0 \<le> tod" "tod < 86400000"
  shows "Day (day * msPerDay + tod) = day"
  unfolding Day_def msPerDay_def
  by (rule int_div_pos_eq [of _ _ _ tod]) (use assms in \<open>simp_all add: algebra_simps\<close>)

lemma month_date_of_day:
  assumes m: "1 \<le> M" "M \<le> 12" and d: "1 \<le> D" "D \<le> days_in_month Y M"
    and l: "l = (if DaysInYear Y = 366 then 1 else 0)"
    and dwy: "DayWithinYear t = month_start (M - 1) l + D - 1"
    and leap: "InLeapYear t = l"
  shows "MonthFromTime t = M - 1" and "DateFromTime t = D"
proof -
  from m have c: "M = 1 \<or> M = 2 \<or> M = 3 \<or> M = 4 \<or> M = 5 \<or> M = 6 \<or> M = 7 \<or> M = 8 \<or> M = 9
      \<or> M = 10 \<or> M = 11 \<or> M = 12" by arith
  have l01: "l = 0 \<or> l = 1" using l by simp
  have mo: "MonthFromTime t = M - 1"
    using c d l01 DaysInYear_cases [of Y]
    unfolding MonthFromTime_def Let_def dwy leap month_start_def days_in_month_def l
    by (elim disjE) simp_all
  show "MonthFromTime t = M - 1" by (rule mo)
  show "DateFromTime t = D"
    using c d l01 DaysInYear_cases [of Y]
    unfolding DateFromTime_def Let_def mo dwy leap month_start_def days_in_month_def l
    by (elim disjE) simp_all
qed

lemma dwy_range:
  assumes m: "1 \<le> M" "M \<le> 12" and d: "1 \<le> D" "D \<le> days_in_month Y M"
    and l: "l = (if DaysInYear Y = 366 then 1 else 0)"
  shows "0 \<le> month_start (M - 1) l + D - 1" and "month_start (M - 1) l + D - 1 < DaysInYear Y"
proof -
  from m have c: "M = 1 \<or> M = 2 \<or> M = 3 \<or> M = 4 \<or> M = 5 \<or> M = 6 \<or> M = 7 \<or> M = 8 \<or> M = 9
      \<or> M = 10 \<or> M = 11 \<or> M = 12" by arith
  show "0 \<le> month_start (M - 1) l + D - 1"
    using c d unfolding month_start_def l by (elim disjE) simp_all
  show "month_start (M - 1) l + D - 1 < DaysInYear Y"
    using c d DaysInYear_cases [of Y] unfolding month_start_def days_in_month_def l
    by (elim disjE) simp_all
qed


lemma time_fields:
  fixes day H MI S :: int
  assumes "0 \<le> H" "H \<le> 23" "0 \<le> MI" "MI \<le> 59" "0 \<le> S" "S \<le> 59"
  defines "t \<equiv> day * 86400000 + (H * 3600000 + MI * 60000 + S * 1000)"
  shows "HourFromTime t = H" and "MinFromTime t = MI" and "SecFromTime t = S"
    and "msFromTime t = 0"
proof -
  have h: "t div 3600000 = day * 24 + H"
    by (rule int_div_pos_eq [of _ _ _ "MI * 60000 + S * 1000"])
       (use assms in \<open>simp_all add: t_def algebra_simps\<close>)
  have mi: "t div 60000 = day * 1440 + H * 60 + MI"
    by (rule int_div_pos_eq [of _ _ _ "S * 1000"])
       (use assms in \<open>simp_all add: t_def algebra_simps\<close>)
  have s: "t div 1000 = day * 86400 + H * 3600 + MI * 60 + S"
    by (rule int_div_pos_eq [of _ _ _ 0]) (simp_all add: t_def algebra_simps)
  have ms: "t mod 1000 = 0"
    by (rule int_mod_pos_eq [of _ _ "day * 86400 + H * 3600 + MI * 60 + S"])
       (simp_all add: t_def algebra_simps)
  have "(day * 24 + H) mod 24 = H"
    by (rule int_mod_pos_eq [of _ _ day]) (use assms in \<open>simp_all add: algebra_simps\<close>)
  then show "HourFromTime t = H" by (simp add: HourFromTime_def h)
  have "(day * 1440 + H * 60 + MI) mod 60 = MI"
    by (rule int_mod_pos_eq [of _ _ "day * 24 + H"]) (use assms in \<open>simp_all add: algebra_simps\<close>)
  then show "MinFromTime t = MI" by (simp add: MinFromTime_def mi)
  have "(day * 86400 + H * 3600 + MI * 60 + S) mod 60 = S"
    by (rule int_mod_pos_eq [of _ _ "day * 1440 + H * 60 + MI"])
       (use assms in \<open>simp_all add: algebra_simps\<close>)
  then show "SecFromTime t = S" by (simp add: SecFromTime_def s)
  show "msFromTime t = 0" by (simp add: msFromTime_def ms)
qed

lemma utc_fields:
  assumes v: "valid_date_time Y M D H MI S" and y: "Y \<le> 9999"
    and n: "0 \<le> H" "0 \<le> MI" "0 \<le> S"
  obtains t where "Date_UTC Y (M - 1) D H MI S = Some t"
    and "YearFromTime t = Y" and "MonthFromTime t = M - 1" and "DateFromTime t = D"
    and "HourFromTime t = H" and "MinFromTime t = MI" and "SecFromTime t = S"
    and "msFromTime t = 0"
proof -
  from v have m: "1 \<le> M" "M \<le> 12" and d: "1 \<le> D" "D \<le> days_in_month Y M"
    and y100: "100 \<le> Y" and hms: "H \<le> 23" "MI \<le> 59" "S \<le> 59"
    by (simp_all add: valid_date_time_def)
  define l :: int where "l = (if DaysInYear Y = 366 then 1 else 0)"
  define dwy where "dwy = month_start (M - 1) l + D - 1"
  define day where "day = DayFromYear Y + dwy"
  define tod where "tod = H * 3600000 + MI * 60000 + S * 1000"
  define t where "t = day * 86400000 + tod"
  have r: "0 \<le> dwy" "dwy < DaysInYear Y"
    unfolding dwy_def using dwy_range [OF m d l_def] by simp_all
  have tr: "0 \<le> tod" "tod < 86400000" unfolding tod_def using n hms by simp_all
  have md: "(M - 1) div 12 = 0" "(M - 1) mod 12 = M - 1" using m by simp_all
  have mk: "MakeDate (MakeDay Y (M - 1) D) (MakeTime H MI S 0) = t"
    by (simp add: MakeDate_def MakeDay_def MakeTime_def Let_def md t_def day_def dwy_def
        l_def tod_def msPerDay_def)
  have dy: "Day t = day" unfolding t_def using Day_eq [OF tr, of day] by (simp add: msPerDay_def)
  have yr: "YearFromTime t = Y"
    unfolding YearFromTime_def dy
    by (rule YearFromDay_eq) (use r in \<open>simp_all add: day_def DayFromYear_Suc\<close>)
  have dw: "DayWithinYear t = month_start (M - 1) l + D - 1"
    by (simp add: DayWithinYear_def dy yr day_def dwy_def)
  have lp: "InLeapYear t = l" by (simp add: InLeapYear_def yr l_def)
  have bound: "\<bar>t\<bar> \<le> 8640000000000000"
  proof -
    have "- 684420 \<le> DayFromYear Y \<and> DayFromYear Y \<le> 2938614"
    proof (cases "1970 \<le> Y")
      case True
      with DayFromYear_lower [of Y] y show ?thesis by simp
    next
      case False
      with DayFromYear_upper [of Y] y100 show ?thesis by simp
    qed
    moreover have "dwy < 366" using r DaysInYear_cases [of Y] by auto
    ultimately have b: "- 684420 \<le> day" "day \<le> 2938980" using r by (simp_all add: day_def)
    have u: "day * 86400000 \<le> 2938980 * 86400000"
      using b(2) by (intro mult_right_mono) simp_all
    have lo: "- 684420 * 86400000 \<le> day * 86400000"
      using b(1) by (intro mult_right_mono) simp_all
    have "- 8640000000000000 \<le> day * 86400000 + tod" using lo tr by simp
    moreover have "day * 86400000 + tod \<le> 8640000000000000" using u tr by simp
    ultimately show ?thesis unfolding t_def by (simp add: abs_le_iff)
  qed
  have utc: "Date_UTC Y (M - 1) D H MI S = Some t"
    using y100 bound by (simp add: Date_UTC_def Let_def mk TimeClip_def)
  have tf: "HourFromTime t = H" "MinFromTime t = MI" "SecFromTime t = S" "msFromTime t = 0"
    unfolding t_def tod_def using time_fields [OF n(1) hms(1) n(2) hms(2) n(3) hms(3), of day]
    by simp_all
  show thesis
    using that [OF utc yr month_date_of_day [OF m d l_def dw lp] tf] .
qed


lemma digit_val_props:
  assumes "is_digit c"
  shows "digit_val c < 10" and "digit_char (digit_val c) = c"
    and "c \<noteq> CHR ''T''" and "c \<noteq> CHR ''.''"
proof -
  from assms have r: "48 \<le> (of_char c :: nat)" "(of_char c :: nat) \<le> 57"
    by (simp_all add: is_digit_def)
  then show "digit_val c < 10" by (simp add: digit_val_def)
  from r have "48 + (of_char c - 48) = (of_char c :: nat)" by simp
  then show "digit_char (digit_val c) = c" by (simp add: digit_char_def digit_val_def)
  from r show "c \<noteq> CHR ''T''" by auto
  from r show "c \<noteq> CHR ''.''" by auto
qed

lemma num_of_digits_2: "num_of_digits [a, b] = int (10 * digit_val a + digit_val b)"
  by (simp add: num_of_digits_def digit_val_def)

lemma num_of_digits_4:
  "num_of_digits [a, b, c, d] =
     int (1000 * digit_val a + 100 * digit_val b + 10 * digit_val c + digit_val d)"
  by (simp add: num_of_digits_def digit_val_def)

lemma replicate_2: "replicate 2 x = [x, x]"
  by (simp add: numeral_2_eq_2)

lemma replicate_3: "replicate 3 x = [x, x, x]"
  by (simp add: numeral_3_eq_3)

lemma digit_char_0: "digit_char 0 = CHR ''0''"
  by (simp add: char_eval)

lemma string_of_nat_2:
  "10 \<le> n \<Longrightarrow> n < 100 \<Longrightarrow> string_of_nat n = [digit_char (n div 10), digit_char (n mod 10)]"
  by (subst string_of_nat.simps) (simp add: string_of_nat_digit)

lemma string_of_nat_3:
  "100 \<le> n \<Longrightarrow> n < 1000 \<Longrightarrow>
     string_of_nat n = [digit_char (n div 100), digit_char (n div 10 mod 10), digit_char (n mod 10)]"
  by (subst string_of_nat.simps) (simp add: string_of_nat_2 div_mult2_eq [symmetric])

lemma string_of_nat_4:
  "1000 \<le> n \<Longrightarrow> n < 10000 \<Longrightarrow>
     string_of_nat n =
       [digit_char (n div 1000), digit_char (n div 100 mod 10), digit_char (n div 10 mod 10),
        digit_char (n mod 10)]"
  by (subst string_of_nat.simps) (simp add: string_of_nat_3 div_mult2_eq [symmetric])

lemma pad_2_digits:
  assumes "a < 10" "b < 10"
  shows "pad 2 (10 * a + b) = [digit_char a, digit_char b]"
proof (cases "a = 0")
  case True
  with assms show ?thesis by (simp add: pad_def string_of_nat_digit digit_char_0 replicate_2 replicate_3)
next
  case False
  with assms have "10 \<le> 10 * a + b" "10 * a + b < 100" by simp_all
  from string_of_nat_2 [OF this] assms show ?thesis by (simp add: pad_def replicate_2 replicate_3)
qed

lemma pad_4_digits:
  assumes "a < 10" "b < 10" "c < 10" "d < 10"
  shows "pad 4 (1000 * a + 100 * b + 10 * c + d) = [digit_char a, digit_char b, digit_char c, digit_char d]"
proof -
  define n where "n = 1000 * a + 100 * b + 10 * c + d"
  have q1: "n div 1000 = a"
    by (rule div_nat_eqI) (use assms in \<open>simp_all add: n_def\<close>)
  have q2: "n div 100 = 10 * a + b"
    by (rule div_nat_eqI) (use assms in \<open>simp_all add: n_def\<close>)
  have q3: "n div 10 = 100 * a + 10 * b + c"
    by (rule div_nat_eqI) (use assms in \<open>simp_all add: n_def\<close>)
  have q4: "n mod 10 = d"
    unfolding modulo_nat_def q3 by (simp add: n_def)
  have q5: "(10 * a + b) mod 10 = b"
    using assms by simp
  have "(c + 10 * (10 * a + b)) mod 10 = c mod 10"
    by (rule mod_mult_self2)
  then have q6: "(100 * a + 10 * b + c) mod 10 = c"
    using assms by (simp add: algebra_simps)
  have q: "n div 1000 = a" "n div 100 mod 10 = b" "n div 10 mod 10 = c" "n mod 10 = d"
    "n div 100 = 10 * a + b" "n div 10 = 100 * a + 10 * b + c"
    using q1 q2 q3 q4 q5 q6 by simp_all
  consider "n < 10" | "10 \<le> n" "n < 100" | "100 \<le> n" "n < 1000" | "1000 \<le> n" "n < 10000"
    using assms by (cases "n < 10"; cases "n < 100"; cases "n < 1000") (auto simp: n_def)
  then show ?thesis
  proof cases
    case 1
    then have "a = 0" "b = 0" "c = 0" by (simp_all add: n_def)
    with assms(4) show ?thesis
      by (simp add: pad_def string_of_nat_digit digit_char_0 replicate_2 replicate_3)
  next
    case 2
    then have z: "a = 0" "b = 0" by (simp_all add: n_def)
    from string_of_nat_2 [OF 2] q z show ?thesis
      unfolding n_def [symmetric] by (simp add: pad_def digit_char_0 replicate_2 replicate_3)
  next
    case 3
    then have z: "a = 0" by (simp_all add: n_def)
    from string_of_nat_3 [OF 3] q z show ?thesis
      unfolding n_def [symmetric] by (simp add: pad_def digit_char_0 replicate_2 replicate_3)
  next
    case 4
    from string_of_nat_4 [OF 4] q show ?thesis
      unfolding n_def [symmetric] by (simp add: pad_def replicate_2 replicate_3)
  qed
qed

lemma pad_3_zero: "pad 3 0 = ''000''"
  by (simp add: pad_def string_of_nat_digit digit_char_0 replicate_2 replicate_3)


lemma length_2_conv: "length xs = 2 \<Longrightarrow> \<exists>a b. xs = [a, b]"
  by (auto simp: numeral_2_eq_2 length_Suc_conv)

lemma length_4_conv: "length xs = 4 \<Longrightarrow> \<exists>a b c d. xs = [a, b, c, d]"
  by (auto simp: numeral_eq_Suc length_Suc_conv)

lemma pdf_date_exec_prefix:
  assumes "list_all is_digit [y1, y2, y3, y4, m1, m2, d1, d2, h1, h2, i1, i2, s1, s2]"
  shows "pdf_date_exec (''D:'' @ [y1, y2, y3, y4, m1, m2, d1, d2, h1, h2, i1, i2, s1, s2] @ rest)
     = Some ([y1, y2, y3, y4], [m1, m2], [d1, d2], [h1, h2], [i1, i2], [s1, s2])"
  using assms by (simp add: match_here_def)

lemma iso_text_replace:
  assumes "list_all is_digit [y1, y2, y3, y4, m1, m2, d1, d2, h1, h2, i1, i2, s1, s2]"
  shows "replace_first ''.000Z'' ''Z''
           (replace_first ''T'' '' ''
              ([y1, y2, y3, y4] @ ''-'' @ [m1, m2] @ ''-'' @ [d1, d2] @ ''T'' @ [h1, h2] @ '':''
               @ [i1, i2] @ '':'' @ [s1, s2] @ ''.'' @ ''000'' @ ''Z''))
         = [y1, y2, y3, y4] @ ''-'' @ [m1, m2] @ ''-'' @ [d1, d2] @ '' '' @ [h1, h2] @ '':''
               @ [i1, i2] @ '':'' @ [s1, s2] @ ''Z''"
proof -
  have 1: "replace_first ''T'' '' ''
              ([y1, y2, y3, y4] @ ''-'' @ [m1, m2] @ ''-'' @ [d1, d2] @ ''T'' @ [h1, h2] @ '':''
               @ [i1, i2] @ '':'' @ [s1, s2] @ ''.'' @ ''000'' @ ''Z'')
        = [y1, y2, y3, y4] @ ''-'' @ [m1, m2] @ ''-'' @ [d1, d2] @ '' '' @ [h1, h2] @ '':''
               @ [i1, i2] @ '':'' @ [s1, s2] @ ''.'' @ ''000'' @ ''Z''"
    using assms by (simp add: digit_val_props(3))
  show ?thesis
    unfolding 1 using assms by (simp add: digit_val_props(4))
qed

text \<open>
  C2, as amended. The empty timestamp is formatted as the empty string. A timestamp that
  begins with \<open>D:\<close> and fourteen digits which denote a date of the calendar and a time of
  day, in a year from 0100 on, is formatted as \<open>YYYY-MM-DD HH:MM:SSZ\<close> with exactly these
  digits, whatever follows them.
\<close>
theorem formatDate_pdf_date:
  "formatDate parse (JStr []) = Inr [] \<and>
   (length y = 4 \<and> length mo = 2 \<and> length d = 2 \<and> length h = 2 \<and> length mi = 2 \<and> length s = 2 \<and>
    list_all is_digit (y @ mo @ d @ h @ mi @ s) \<and>
    valid_date_time (num_of_digits y) (num_of_digits mo) (num_of_digits d)
      (num_of_digits h) (num_of_digits mi) (num_of_digits s) \<longrightarrow>
      formatDate parse (JStr (''D:'' @ y @ mo @ d @ h @ mi @ s @ rest)) =
        Inr (y @ ''-'' @ mo @ ''-'' @ d @ '' '' @ h @ '':'' @ mi @ '':'' @ s @ ''Z''))"
proof (intro conjI impI)
  show "formatDate parse (JStr []) = Inr []" by (simp add: formatDate_def)
next
  assume a: "length y = 4 \<and> length mo = 2 \<and> length d = 2 \<and> length h = 2 \<and> length mi = 2 \<and>
    length s = 2 \<and> list_all is_digit (y @ mo @ d @ h @ mi @ s) \<and>
    valid_date_time (num_of_digits y) (num_of_digits mo) (num_of_digits d)
      (num_of_digits h) (num_of_digits mi) (num_of_digits s)"
  from a obtain y1 y2 y3 y4 where y: "y = [y1, y2, y3, y4]" using length_4_conv by blast
  from a obtain m1 m2 where mo: "mo = [m1, m2]" using length_2_conv by blast
  from a obtain d1 d2 where d: "d = [d1, d2]" using length_2_conv by blast
  from a obtain h1 h2 where h: "h = [h1, h2]" using length_2_conv by blast
  from a obtain i1 i2 where mi: "mi = [i1, i2]" using length_2_conv by blast
  from a obtain s1 s2 where s: "s = [s1, s2]" using length_2_conv by blast
  from a have dg: "list_all is_digit [y1, y2, y3, y4, m1, m2, d1, d2, h1, h2, i1, i2, s1, s2]"
    by (simp add: y mo d h mi s)
  then have dgs: "is_digit y1" "is_digit y2" "is_digit y3" "is_digit y4" "is_digit m1" "is_digit m2"
    "is_digit d1" "is_digit d2" "is_digit h1" "is_digit h2" "is_digit i1" "is_digit i2"
    "is_digit s1" "is_digit s2" by simp_all
  note lt = dgs [THEN digit_val_props(1)]
  note dc = dgs [THEN digit_val_props(2)]
  define Y where "Y = num_of_digits y"
  define M where "M = num_of_digits mo"
  define D where "D = num_of_digits d"
  define H where "H = num_of_digits h"
  define MI where "MI = num_of_digits mi"
  define S where "S = num_of_digits s"
  have v: "valid_date_time Y M D H MI S" using a by (simp add: Y_def M_def D_def H_def MI_def S_def)
  have Yn: "Y = int (1000 * digit_val y1 + 100 * digit_val y2 + 10 * digit_val y3 + digit_val y4)"
    by (simp only: Y_def y num_of_digits_4)
  have Mn: "M = int (10 * digit_val m1 + digit_val m2)" by (simp only: M_def mo num_of_digits_2)
  have Dn: "D = int (10 * digit_val d1 + digit_val d2)" by (simp only: D_def d num_of_digits_2)
  have Hn: "H = int (10 * digit_val h1 + digit_val h2)" by (simp only: H_def h num_of_digits_2)
  have In: "MI = int (10 * digit_val i1 + digit_val i2)" by (simp only: MI_def mi num_of_digits_2)
  have Sn: "S = int (10 * digit_val s1 + digit_val s2)" by (simp only: S_def s num_of_digits_2)
  have y9: "Y \<le> 9999" unfolding Yn using lt(1-4) by simp
  have nn: "0 \<le> H" "0 \<le> MI" "0 \<le> S" unfolding Hn In Sn by simp_all
  from utc_fields [OF v y9 nn] obtain t where
    utc: "Date_UTC Y (M - 1) D H MI S = Some t"
    and f: "YearFromTime t = Y" "MonthFromTime t = M - 1" "DateFromTime t = D"
      "HourFromTime t = H" "MinFromTime t = MI" "SecFromTime t = S" "msFromTime t = 0"
    by blast
  have py: "iso_year Y = [y1, y2, y3, y4]"
    using y9 unfolding iso_year_def Yn by (simp add: pad_4_digits lt dc del: of_nat_add of_nat_mult)
  have pm: "pad 2 (nat M) = [m1, m2]"
    unfolding Mn by (simp add: pad_2_digits lt dc del: of_nat_add of_nat_mult)
  have pd: "pad 2 (nat D) = [d1, d2]"
    unfolding Dn by (simp add: pad_2_digits lt dc del: of_nat_add of_nat_mult)
  have ph: "pad 2 (nat H) = [h1, h2]"
    unfolding Hn by (simp add: pad_2_digits lt dc del: of_nat_add of_nat_mult)
  have pi: "pad 2 (nat MI) = [i1, i2]"
    unfolding In by (simp add: pad_2_digits lt dc del: of_nat_add of_nat_mult)
  have ps: "pad 2 (nat S) = [s1, s2]"
    unfolding Sn by (simp add: pad_2_digits lt dc del: of_nat_add of_nat_mult)
  have iso: "toISOString (Some t) =
      Inr ([y1, y2, y3, y4] @ ''-'' @ [m1, m2] @ ''-'' @ [d1, d2] @ ''T'' @ [h1, h2] @ '':''
               @ [i1, i2] @ '':'' @ [s1, s2] @ ''.'' @ ''000'' @ ''Z'')"
    by (simp add: toISOString_def f py pm pd ph pi ps pad_3_zero)
  have ex: "pdf_date_exec (js_toString (JStr (''D:'' @ y @ mo @ d @ h @ mi @ s @ rest)))
      = Some (y, mo, d, h, mi, s)"
    using pdf_date_exec_prefix [OF dg, of rest] by (simp add: y mo d h mi s)
  have "formatDate parse (JStr (''D:'' @ y @ mo @ d @ h @ mi @ s @ rest)) =
      Inr (replace_first ''.000Z'' ''Z'' (replace_first ''T'' '' ''
        ([y1, y2, y3, y4] @ ''-'' @ [m1, m2] @ ''-'' @ [d1, d2] @ ''T'' @ [h1, h2] @ '':''
               @ [i1, i2] @ '':'' @ [s1, s2] @ ''.'' @ ''000'' @ ''Z'')))"
    unfolding formatDate_def ex
    by (simp add: utc [unfolded Y_def M_def D_def H_def MI_def S_def] iso)
  then show "formatDate parse (JStr (''D:'' @ y @ mo @ d @ h @ mi @ s @ rest)) =
        Inr (y @ ''-'' @ mo @ ''-'' @ d @ '' '' @ h @ '':'' @ mi @ '':'' @ s @ ''Z'')"
    unfolding iso_text_replace [OF dg] by (simp add: y mo d h mi s)
qed


lemma toISOString_valid:
  assumes "valid_date_time Y M D H MI S" and "Y \<le> 9999" and "0 \<le> H" "0 \<le> MI" "0 \<le> S"
  shows "toISOString (Date_UTC Y (M - 1) D H MI S) =
     Inr (pad 4 (nat Y) @ ''-'' @ pad 2 (nat M) @ ''-'' @ pad 2 (nat D) @ ''T'' @ pad 2 (nat H)
          @ '':'' @ pad 2 (nat MI) @ '':'' @ pad 2 (nat S) @ ''.000Z'')"
proof -
  from utc_fields [OF assms] obtain t where
    utc: "Date_UTC Y (M - 1) D H MI S = Some t"
    and f: "YearFromTime t = Y" "MonthFromTime t = M - 1" "DateFromTime t = D"
      "HourFromTime t = H" "MinFromTime t = MI" "SecFromTime t = S" "msFromTime t = 0"
    by blast
  from assms(1) have "0 \<le> Y" by (simp add: valid_date_time_def)
  with assms(2) show ?thesis
    by (simp add: utc toISOString_def f iso_year_def pad_3_zero)
qed

lemma formatDate_digits:
  assumes "list_all is_digit [y1, y2, y3, y4, m1, m2, d1, d2, h1, h2, i1, i2, s1, s2]"
  shows "formatDate parse (JStr (''D:'' @ [y1, y2, y3, y4, m1, m2, d1, d2, h1, h2, i1, i2, s1, s2] @ rest)) =
     (case toISOString (Date_UTC (num_of_digits [y1, y2, y3, y4]) (num_of_digits [m1, m2] - 1)
              (num_of_digits [d1, d2]) (num_of_digits [h1, h2]) (num_of_digits [i1, i2])
              (num_of_digits [s1, s2])) of
        Inl e \<Rightarrow> Inl e
      | Inr txt \<Rightarrow> Inr (replace_first ''.000Z'' ''Z'' (replace_first ''T'' '' '' txt)))"
  unfolding formatDate_def js_toString.simps pdf_date_exec_prefix [OF assms]
  by simp

lemma Date_UTC_two_digit_year:
  "0 \<le> y \<Longrightarrow> y \<le> 99 \<Longrightarrow> Date_UTC y m d h mi s = Date_UTC (1900 + y) m d h mi s"
  by (simp add: Date_UTC_def)

lemma pad_examples:
  "pad 4 1950 = ''1950''" "pad 4 2017 = ''2017''" "pad 4 2023 = ''2023''"
  "pad 2 0 = ''00''" "pad 2 1 = ''01''" "pad 2 6 = ''06''" "pad 2 14 = ''14''" "pad 2 15 = ''15''"
  "pad 2 22 = ''22''" "pad 2 30 = ''30''" "pad 2 12 = ''12''" "pad 2 (Suc 0) = ''01''"
  using pad_4_digits [of 1 9 5 0] pad_4_digits [of 2 0 1 7] pad_4_digits [of 2 0 2 3]
    pad_2_digits [of 0 0] pad_2_digits [of 0 1] pad_2_digits [of 0 6] pad_2_digits [of 1 4]
    pad_2_digits [of 1 5] pad_2_digits [of 2 2] pad_2_digits [of 3 0] pad_2_digits [of 1 2]
    pad_2_digits [of 0 "Suc 0"]
  by (simp_all add: char_eval)

lemma num_of_digits_examples:
  "num_of_digits ''0050'' = 50" "num_of_digits ''2016'' = 2016" "num_of_digits ''2023'' = 2023"
  "num_of_digits ''06'' = 6" "num_of_digits ''15'' = 15" "num_of_digits ''14'' = 14"
  "num_of_digits ''30'' = 30" "num_of_digits ''22'' = 22" "num_of_digits ''12'' = 12"
  "num_of_digits ''31'' = 31" "num_of_digits ''23'' = 23" "num_of_digits ''59'' = 59"
  "num_of_digits ''60'' = 60" "num_of_digits ''01'' = 1" "num_of_digits ''00'' = 0"
  by (simp_all add: num_of_digits_def)

text \<open>
  The timestamp \<open>D:20230615143022\<close>.
\<close>
theorem formatDate_pdf_date_witness:
  "formatDate parse_unrecognised (JStr ''D:20230615143022'') = Inr ''2023-06-15 14:30:22Z''"
proof -
  have v: "valid_date_time (num_of_digits ''2023'') (num_of_digits ''06'') (num_of_digits ''15'')
      (num_of_digits ''14'') (num_of_digits ''30'') (num_of_digits ''22'')"
    by (simp add: num_of_digits_examples valid_date_time_def days_in_month_def)
  have l: "length ''2023'' = 4 \<and> length ''06'' = 2 \<and> length ''15'' = 2 \<and> length ''14'' = 2 \<and>
      length ''30'' = 2 \<and> length ''22'' = 2" by simp
  have g: "list_all is_digit (''2023'' @ ''06'' @ ''15'' @ ''14'' @ ''30'' @ ''22'')"
    by (simp add: is_digit_def)
  from formatDate_pdf_date [of parse_unrecognised "''2023''" "''06''" "''15''" "''14''" "''30''" "''22''" "[]"]
    v l g
  have "formatDate parse_unrecognised (JStr (''D:'' @ ''2023'' @ ''06'' @ ''15'' @ ''14'' @ ''30'' @ ''22'' @ [])) =
        Inr (''2023'' @ ''-'' @ ''06'' @ ''-'' @ ''15'' @ '' '' @ ''14'' @ '':'' @ ''30'' @ '':'' @ ''22'' @ ''Z'')"
    by blast
  then show ?thesis by simp
qed

text \<open>
  C2 as stated fails for digits that \<open>Date.UTC\<close> does not take as they stand: the year
  0050 comes out as 1950, and the second 60 of the leap second at the end of 2016 comes out
  as the first second of 2017.
\<close>
theorem formatDate_pdf_date_counterexample:
  "formatDate parse_unrecognised (JStr ''D:00500615143022'') = Inr ''1950-06-15 14:30:22Z'' \<and>
   formatDate parse_unrecognised (JStr ''D:20161231235960'') = Inr ''2017-01-01 00:00:00Z''"
proof
  have v: "valid_date_time 1950 6 15 14 30 22"
    by (simp add: valid_date_time_def days_in_month_def)
  have u: "Date_UTC 50 5 15 14 30 22 = Date_UTC 1950 (6 - 1) 15 14 30 22"
    using Date_UTC_two_digit_year [of 50 5 15 14 30 22] by simp
  have t: "toISOString (Date_UTC 50 5 15 14 30 22) = Inr ''1950-06-15T14:30:22.000Z''"
    unfolding u using toISOString_valid [OF v] by (simp add: pad_examples)
  have g: "list_all is_digit ''00500615143022''" by (simp add: is_digit_def)
  show "formatDate parse_unrecognised (JStr ''D:00500615143022'') = Inr ''1950-06-15 14:30:22Z''"
    using formatDate_digits [OF g, of parse_unrecognised "[]"]
    by (simp add: num_of_digits_examples t)
next
  have v: "valid_date_time 2017 1 1 0 0 0"
    by (simp add: valid_date_time_def days_in_month_def)
  have u: "Date_UTC 2016 11 31 23 59 60 = Date_UTC 2017 (1 - 1) 1 0 0 0"
    by (simp add: Date_UTC_def MakeDate_def MakeDay_def MakeTime_def DayFromYear_def
        DaysInYear_def month_start_def msPerDay_def)
  have t: "toISOString (Date_UTC 2016 11 31 23 59 60) = Inr ''2017-01-01T00:00:00.000Z''"
    unfolding u using toISOString_valid [OF v] by (simp add: pad_examples)
  have g: "list_all is_digit ''20161231235960''" by (simp add: is_digit_def)
  show "formatDate parse_unrecognised (JStr ''D:20161231235960'') = Inr ''2017-01-01 00:00:00Z''"
    using formatDate_digits [OF g, of parse_unrecognised "[]"]
    by (simp add: num_of_digits_examples t)
qed

section \<open>Failures in one annotation\<close>

lemma formatDate_not_a_date:
  "formatDate parse_unrecognised (JStr ''not a date'') = Inl RangeError"
  by (simp add: formatDate_def match_here_def parse_unrecognised_def toISOString_def)

lemma process_good:
  "process_annotation parse_unrecognised 1 good_annotation =
     Inr (Some \<lparr>Page = 1, Author = JStr [], Comment = ''ok'', Modified = []\<rparr>)"
  by (simp add: good_annotation_def annot_eval)

lemma process_bad_date:
  "process_annotation parse_unrecognised 1 bad_date_annotation = Inl RangeError"
proof -
  have "annot_mod bad_date_annotation = JStr ''not a date''"
    by (simp add: bad_date_annotation_def annot_mod_def field_eval js_or_def)
  moreover have "annot_subtype bad_date_annotation = JStr ''Text''"
    by (simp add: bad_date_annotation_def annot_subtype_def field_eval js_or_def)
  moreover have "annot_contents bad_date_annotation = JStr ''x''"
    by (simp add: bad_date_annotation_def annot_contents_def field_eval)
  moreover have "trim ''x'' = ''x''" by (simp add: trim_def is_ws_def)
  ultimately show ?thesis
    by (simp add: process_annotation_def formatDate_not_a_date)
qed

lemma process_number_text:
  "process_annotation parse_unrecognised 1 number_text_annotation = Inl TypeError"
  by (simp add: number_text_annotation_def process_annotation_def annot_subtype_def
      annot_contents_def field_eval js_or_def)

text \<open>
  C1 does not hold of the program. A modification date that is neither a PDF date nor
  recognised by the date parser makes \<open>formatDate\<close> throw a RangeError
  (\<open>toISOString\<close> of an invalid date), and the exception ends the whole extraction: the
  entry of the annotation before it, which is extracted when it stands alone, is lost,
  and the error is reported instead. A content object whose string sub-field is a number
  ends the extraction in the same way, with the TypeError of \<open>contents.trim()\<close>.
\<close>
theorem malformed_annotation_aborts_extraction:
  "formatDate parse_unrecognised (JStr ''not a date'') = Inl RangeError \<and>
   comments (handleFileSelect parse_unrecognised [[good_annotation]] st0) =
     [\<lparr>Page = 1, Author = JStr [], Comment = ''ok'', Modified = []\<rparr>] \<and>
   error (handleFileSelect parse_unrecognised [[good_annotation, bad_date_annotation]] st0) =
     Some RangeError \<and>
   comments (handleFileSelect parse_unrecognised [[good_annotation, bad_date_annotation]] st0) = [] \<and>
   error (handleFileSelect parse_unrecognised [[good_annotation, number_text_annotation]] st0) =
     Some TypeError \<and>
   comments (handleFileSelect parse_unrecognised [[good_annotation, number_text_annotation]] st0) = []"
  by (simp add: formatDate_not_a_date handleFileSelect_comments handleFileSelect_error
      process_good process_bad_date process_number_text)

end
